theory Spec2Isabelle
  imports Main "HOL-Library.Multiset" "HOL-Library.List_Lexorder" "HOL-Library.Char_ord"
begin

section \<open>JavaScript arrays\<close>



text \<open>\<open>Array.prototype.splice(start, deleteCount, ...items)\<close>: a negative start counts from
  the end, and both start and deleteCount are clamped to the array.\<close>

definition splice_start :: "int \<Rightarrow> 'a list \<Rightarrow> nat" where
  "splice_start start xs =
     (if start < 0 then nat (max (int (length xs) + start) 0)
      else min (nat start) (length xs))"

definition js_splice :: "int \<Rightarrow> nat \<Rightarrow> 'a list \<Rightarrow> 'a list \<Rightarrow> 'a list" where
  "js_splice start deleteCount new xs =
     (let s = splice_start start xs in take s xs @ new @ drop (s + deleteCount) xs)"

text \<open>\<open>Array.prototype.indexOf\<close>: the first index holding the item, \<open>-1\<close> when absent.\<close>

fun indexOf :: "'a list \<Rightarrow> 'a \<Rightarrow> int" where
  "indexOf [] x = -1"
| "indexOf (y # ys) x =
     (if y = x then 0 else (let r = indexOf ys x in if r < 0 then -1 else r + 1))"

text \<open>\<open>xs[i]\<close> of JavaScript: \<open>undefined\<close> (here \<open>None\<close>) outside the array.\<close>

definition at_index :: "'a list \<Rightarrow> nat \<Rightarrow> 'a option" where
  "at_index xs i = (if i < length xs then Some (xs ! i) else None)"

section \<open>Child slots of virtual nodes (core/nodes)\<close>

text \<open>
  Nodes are mutable objects that refer to each other (\<open>parentNode\<close>, \<open>child\<close>, \<open>comment\<close>,
  \<open>children\<close>), so they live in an explicit store: a reference is a natural number, \<open>null\<close>
  is \<open>None\<close>. Only the fields that the child-slot operations read or write are kept. A
  method receives node objects as arguments: an argument is a reference, never \<open>null\<close>.
  A statement that throws leaves the store as the statements before it made it, so every
  operation returns the exception (if any) together with the store.
\<close>

type_synonym ref = nat

datatype node_type = RootType | ComponentType | ElementType | CommentType

datatype error = TypeError | Error string | RangeError | NotFoundError

record vobject =
  nodeType :: node_type
  parentNode :: "ref option"
  child :: "ref option"
  comment :: "ref option"
  children :: "ref list option"

record store =
  objects :: "ref \<Rightarrow> vobject option"
  next_ref :: ref
  console :: "string list"

type_synonym outcome = "error option \<times> store"

text \<open>Sequencing of statements: an exception skips the rest.\<close>

definition and_then :: "outcome \<Rightarrow> (store \<Rightarrow> outcome) \<Rightarrow> outcome" where
  "and_then r stmt = (case fst r of Some e \<Rightarrow> r | None \<Rightarrow> stmt (snd r))"

definition get_field :: "(vobject \<Rightarrow> 'a option) \<Rightarrow> store \<Rightarrow> ref \<Rightarrow> 'a option" where
  "get_field f s r = (case objects s r of Some ob \<Rightarrow> f ob | None \<Rightarrow> None)"

definition update_object :: "ref \<Rightarrow> (vobject \<Rightarrow> vobject) \<Rightarrow> store \<Rightarrow> store" where
  "update_object r g s = s\<lparr>objects := (objects s)(r := map_option g (objects s r))\<rparr>"

text \<open>\<open>target.parentNode = value\<close>, where \<open>target\<close> was read from a field and may be
  \<open>null\<close>: a \<open>TypeError\<close> then.\<close>

definition set_parentNode :: "ref option \<Rightarrow> ref option \<Rightarrow> store \<Rightarrow> outcome" where
  "set_parentNode target v s =
     (case target of
        None \<Rightarrow> (Some TypeError, s)
      | Some r \<Rightarrow> (None, update_object r (\<lambda>ob. ob\<lparr>parentNode := v\<rparr>) s))"

definition set_child :: "ref \<Rightarrow> ref option \<Rightarrow> store \<Rightarrow> outcome" where
  "set_child this v s = (None, update_object this (\<lambda>ob. ob\<lparr>child := v\<rparr>) s)"

definition set_comment :: "ref \<Rightarrow> ref option \<Rightarrow> store \<Rightarrow> outcome" where
  "set_comment this v s = (None, update_object this (\<lambda>ob. ob\<lparr>comment := v\<rparr>) s)"

text \<open>\<open>new Comment(text, parentNode)\<close>: a fresh object.\<close>

definition new_Comment :: "ref option \<Rightarrow> store \<Rightarrow> ref \<times> store" where
  "new_Comment parent s =
     (next_ref s,
      s\<lparr>objects := (objects s)(next_ref s \<mapsto>
            \<lparr>nodeType = CommentType, parentNode = parent, child = None, comment = None,
             children = None\<rparr>),
        next_ref := Suc (next_ref s)\<rparr>)"

definition createComment :: "ref \<Rightarrow> store \<Rightarrow> ref \<times> store" where
  "createComment this s = new_Comment (Some this) s"

text \<open>The part of the \<open>Component\<close> constructor that sets up the slot:
  \<open>this.comment = this.createComment(); this.child = null\<close>. The object is allocated first;
  \<open>Root\<close> extends \<open>Component\<close> and runs the same constructor.\<close>

definition new_Component :: "node_type \<Rightarrow> ref option \<Rightarrow> store \<Rightarrow> ref \<times> store" where
  "new_Component type parent s =
     (let this = next_ref s;
          s1 = s\<lparr>objects := (objects s)(this \<mapsto>
                  \<lparr>nodeType = type, parentNode = parent, child = None, comment = None,
                   children = None\<rparr>),
                next_ref := Suc this\<rparr>;
          c = createComment this s1;
          s2 = snd (set_comment this (Some (fst c)) (snd c))
      in (this, snd (set_child this None s2)))"

subsection \<open>Assertions\<close>

text \<open>\<open>opr.Toolkit.assert\<close> is a field of the toolkit object. The constructor sets it to
  \<open>console.assert\<close>, which reports a failed assertion on the console and returns; the test
  setup replaces it by a function that throws.\<close>

type_synonym assertion = "bool \<Rightarrow> string \<Rightarrow> store \<Rightarrow> outcome"

definition console_assert :: assertion where
  "console_assert condition message s =
     (None, if condition then s else s\<lparr>console := console s @ [message]\<rparr>)"

definition throwing_assert :: assertion where
  "throwing_assert condition message s =
     (if \<not> condition then (Some (Error message), s) else (None, s))"

definition Toolkit_assert :: assertion where
  "Toolkit_assert = console_assert"

subsection \<open>Component.appendChild, removeChild, replaceChild\<close>

definition appendChild :: "ref \<Rightarrow> ref \<Rightarrow> store \<Rightarrow> outcome" where
  "appendChild this new_child s =
     and_then (set_child this (Some new_child) s) (\<lambda>s.
     and_then (set_parentNode (get_field child s this) (Some this) s) (\<lambda>s.
     and_then (set_parentNode (get_field comment s this) None s) (\<lambda>s.
     set_comment this None s)))"

definition removeChild :: "assertion \<Rightarrow> ref \<Rightarrow> ref \<Rightarrow> store \<Rightarrow> outcome" where
  "removeChild assert this old_child s =
     and_then (assert (get_field child s this = Some old_child)
                 ''Specified node is not a child of this node'' s) (\<lambda>s.
     and_then (set_parentNode (get_field child s this) None s) (\<lambda>s.
     and_then (set_child this None s) (\<lambda>s.
     (let c = createComment this s in set_comment this (Some (fst c)) (snd c)))))"

definition replaceChild :: "assertion \<Rightarrow> ref \<Rightarrow> ref \<Rightarrow> ref \<Rightarrow> store \<Rightarrow> outcome" where
  "replaceChild assert this old_child node s =
     and_then (assert (get_field child s this = Some old_child)
                 ''Specified node is not a child of this node'' s) (\<lambda>s.
     and_then (set_parentNode (get_field child s this) None s) (\<lambda>s.
     and_then (set_child this (Some node) s) (\<lambda>s.
     set_parentNode (get_field child s this) (Some this) s)))"

subsection \<open>VirtualElement.removeChild, replaceChild\<close>

text \<open>
  The element keeps a list of children. A missing list (\<open>undefined\<close>) makes
  \<open>this.children.indexOf\<close> throw.

  Both methods end with a call into the backing DOM: \<open>this.ref.removeChild(child.ref)\<close>
  and \<open>child.ref.replaceWith(node.ref)\<close>. The DOM is the browser's and is not in the store,
  so the two statements are parameters of the model. Each gets the two virtual nodes whose
  \<open>ref\<close> it reads and the store, and it returns like any other statement: it may throw
  (\<open>removeChild\<close> throws a \<open>NotFoundError\<close> when \<open>child.ref\<close> is not a child of \<open>this.ref\<close>,
  and a \<open>TypeError\<close> comes up when a \<open>ref\<close> is \<open>null\<close>).
\<close>

record dom =
  ref_removeChild :: "ref \<Rightarrow> ref \<Rightarrow> store \<Rightarrow> outcome"
  ref_replaceWith :: "ref \<Rightarrow> ref \<Rightarrow> store \<Rightarrow> outcome"

definition set_children :: "ref \<Rightarrow> ref list \<Rightarrow> store \<Rightarrow> outcome" where
  "set_children this v s = (None, update_object this (\<lambda>ob. ob\<lparr>children := Some v\<rparr>) s)"

definition element_removeChild :: "dom \<Rightarrow> assertion \<Rightarrow> ref \<Rightarrow> ref \<Rightarrow> store \<Rightarrow> outcome" where
  "element_removeChild d assert this old_child s =
     (case get_field children s this of
        None \<Rightarrow> (Some TypeError, s)
      | Some cs \<Rightarrow>
          (let index = indexOf cs old_child in
           and_then (assert (index \<ge> 0) ''Specified node is not a child of this element'' s) (\<lambda>s.
           and_then (set_children this (js_splice index 1 [] cs) s) (\<lambda>s.
           and_then (set_parentNode (Some old_child) None s) (\<lambda>s.
           ref_removeChild d this old_child s)))))"

definition element_replaceChild ::
  "dom \<Rightarrow> assertion \<Rightarrow> ref \<Rightarrow> ref \<Rightarrow> ref \<Rightarrow> store \<Rightarrow> outcome" where
  "element_replaceChild d assert this old_child node s =
     (case get_field children s this of
        None \<Rightarrow> (Some TypeError, s)
      | Some cs \<Rightarrow>
          (let index = indexOf cs old_child in
           and_then (assert (index \<ge> 0) ''Specified node is not a child of this element'' s) (\<lambda>s.
           and_then (set_children this (js_splice index 1 [node] cs) s) (\<lambda>s.
           and_then (set_parentNode (Some old_child) None s) (\<lambda>s.
           and_then (set_parentNode (Some node) (Some this) s) (\<lambda>s.
           ref_replaceWith d old_child node s))))))"

text \<open>An assertion function that checks nothing. It is not part of the program: it serves
  to state what an operation does apart from its assertion.\<close>

definition no_assert :: assertion where
  "no_assert condition message s = (None, s)"

text \<open>The slot invariant of a component or root object: exactly one of \<open>child\<close> and
  \<open>comment\<close> is set.\<close>

definition slot_ok :: "vobject \<Rightarrow> bool" where
  "slot_ok ob \<longleftrightarrow> (child ob \<noteq> None) \<noteq> (comment ob \<noteq> None)"

definition is_component :: "vobject \<Rightarrow> bool" where
  "is_component ob \<longleftrightarrow> nodeType ob = ComponentType \<or> nodeType ob = RootType"

definition slots_ok :: "store \<Rightarrow> bool" where
  "slots_ok s \<longleftrightarrow> (\<forall>r ob. objects s r = Some ob \<longrightarrow> is_component ob \<longrightarrow> slot_ok ob)"

text \<open>References handed out by the store are fresh.\<close>

definition fresh_store :: "store \<Rightarrow> bool" where
  "fresh_store s \<longleftrightarrow> (\<forall>r. r \<ge> next_ref s \<longrightarrow> objects s r = None)"

text \<open>The invariant with one object left out, for the states inside an operation.\<close>

definition slots_ok_except :: "ref \<Rightarrow> store \<Rightarrow> bool" where
  "slots_ok_except this s \<longleftrightarrow>
     (\<forall>r ob. r \<noteq> this \<longrightarrow> objects s r = Some ob \<longrightarrow> is_component ob \<longrightarrow> slot_ok ob)"

text \<open>A small store for examples: a component (reference 0) whose child is an element
  (reference 1) with two children, an element (2) and an empty component (3) with its
  placeholder (4); the element 5 is attached to nothing.\<close>

definition example_store :: store where
  "example_store =
     \<lparr>objects = Map.empty
        (0 \<mapsto> \<lparr>nodeType = ComponentType, parentNode = None, child = Some 1, comment = None,
               children = None\<rparr>,
         1 \<mapsto> \<lparr>nodeType = ElementType, parentNode = Some 0, child = None, comment = None,
               children = Some [2, 3]\<rparr>,
         2 \<mapsto> \<lparr>nodeType = ElementType, parentNode = Some 1, child = None, comment = None,
               children = None\<rparr>,
         3 \<mapsto> \<lparr>nodeType = ComponentType, parentNode = Some 1, child = None, comment = Some 4,
               children = None\<rparr>,
         4 \<mapsto> \<lparr>nodeType = CommentType, parentNode = Some 3, child = None, comment = None,
               children = None\<rparr>,
         5 \<mapsto> \<lparr>nodeType = ElementType, parentNode = None, child = None, comment = None,
               children = None\<rparr>),
      next_ref = 6, console = []\<rparr>"

text \<open>The DOM that \<open>example_store\<close> is rendered to, as far as the two calls go: the nodes of
  2 and 3 are the children of the node of element 1, so \<open>removeChild\<close> on any other pair
  throws a \<open>NotFoundError\<close>; \<open>replaceWith\<close> on a node without a parent does nothing.\<close>

definition example_dom :: dom where
  "example_dom =
     \<lparr>ref_removeChild = (\<lambda>this c s.
          if this = 1 \<and> (c = 2 \<or> c = 3) then (None, s) else (Some NotFoundError, s)),
      ref_replaceWith = (\<lambda>c n s. (None, s))\<rparr>"

section \<open>Keyed reconciler (core/reconciler)\<close>

text \<open>
  Array indices are \<open>int\<close> where the source can produce \<open>-1\<close> (\<open>indexOf\<close>) and \<open>nat\<close>
  where they come from \<open>Array.prototype.map\<close>.
\<close>

subsection \<open>Keys\<close>

text \<open>
  A key is a number or a string: the caller passes \<open>description.key || index\<close>, so one
  sequence may hold both. Numbers are integers. \<open>Object.is\<close> on keys is equality.
\<close>

datatype jskey = KNum int | KStr string

fun isNum :: "jskey \<Rightarrow> bool" where
  "isNum (KNum n) = True"
| "isNum (KStr s) = False"

text \<open>Truthiness: \<open>0\<close> and the empty string are falsy.\<close>

fun key_truthy :: "jskey \<Rightarrow> bool" where
  "key_truthy (KNum n) = (n \<noteq> 0)"
| "key_truthy (KStr s) = (s \<noteq> [])"

text \<open>
  What the reconciler takes from the JavaScript engine: the conversion of a string to a
  number that the comparison operator applies when it compares a string with a number
  (\<open>None\<close> is \<open>NaN\<close>), and \<open>Array.prototype.sort\<close> with a comparison function.
\<close>

type_synonym 'k item = "'k \<times> nat"

record engine =
  toNumber :: "string \<Rightarrow> int option"
  array_sort :: "(jskey item \<Rightarrow> jskey item \<Rightarrow> int) \<Rightarrow> jskey item list \<Rightarrow> jskey item list"

text \<open>The operator \<open>>\<close>: numbers by value, strings by their code units, a number and a
  string after the string has been converted; a comparison with \<open>NaN\<close> is false.\<close>

fun js_gt :: "engine \<Rightarrow> jskey \<Rightarrow> jskey \<Rightarrow> bool" where
  "js_gt eng (KNum a) (KNum b) = (a > b)"
| "js_gt eng (KStr a) (KStr b) = (a > b)"
| "js_gt eng (KNum a) (KStr b) = (case toNumber eng b of None \<Rightarrow> False | Some n \<Rightarrow> a > n)"
| "js_gt eng (KStr a) (KNum b) = (case toNumber eng a of None \<Rightarrow> False | Some n \<Rightarrow> n > b)"

text \<open>A linear order on keys that is the order of \<open>>\<close> on numbers and on strings. Between a
  number and a string JavaScript has no order; numbers come first here, only to have a
  linear order on the type.\<close>

instantiation jskey :: linorder
begin

fun less_eq_jskey :: "jskey \<Rightarrow> jskey \<Rightarrow> bool" where
  "less_eq_jskey (KNum a) (KNum b) = (a \<le> b)"
| "less_eq_jskey (KStr a) (KStr b) = (a \<le> b)"
| "less_eq_jskey (KNum a) (KStr b) = True"
| "less_eq_jskey (KStr a) (KNum b) = False"

definition less_jskey :: "jskey \<Rightarrow> jskey \<Rightarrow> bool" where
  "less_jskey a b \<longleftrightarrow> a \<le> b \<and> \<not> b \<le> a"

instance
proof
  fix x y z :: jskey
  show "(x < y) = (x \<le> y \<and> \<not> y \<le> x)" by (simp add: less_jskey_def)
  show "x \<le> x" by (cases x) simp_all
  show "x \<le> y \<Longrightarrow> y \<le> z \<Longrightarrow> x \<le> z"
    by (cases x; cases y; cases z) auto
  show "x \<le> y \<Longrightarrow> y \<le> x \<Longrightarrow> x = y"
    by (cases x; cases y) auto
  show "x \<le> y \<or> y \<le> x"
    by (cases x; cases y) auto
qed

end

text \<open>Keys of one kind: all numbers or all strings.\<close>

definition same_kind :: "jskey list \<Rightarrow> bool" where
  "same_kind ks \<longleftrightarrow> (\<forall>k\<in>set ks. isNum k) \<or> (\<forall>k\<in>set ks. \<not> isNum k)"

subsection \<open>Move directives\<close>

datatype 'k move =
    Insert (item: 'k) (at: int)
  | Move (item: 'k) (from_index: int) (to_index: int)
  | Remove (item: 'k) (at: int)

text \<open>The \<open>make\<close> closure of a move: its transformation of a list of keys.\<close>

fun make :: "'k move \<Rightarrow> 'k list \<Rightarrow> 'k list" where
  "make (Insert k i) items = js_splice i 0 [k] items"
| "make (Move k from to) items = js_splice to 0 [k] (js_splice from 1 [] items)"
| "make (Remove k i) items = js_splice i 1 [] items"

fun isMove :: "'k move \<Rightarrow> bool" where
  "isMove (Move _ _ _) = True"
| "isMove _ = False"



subsection \<open>Reconciler.calculateMoves\<close>

text \<open>Items are the \<open>{key, index}\<close> objects of \<open>createItem\<close>.\<close>

definition createItems :: "'k list \<Rightarrow> 'k item list" where
  "createItems keys = zip keys [0..<length keys]"

definition comparator :: "engine \<Rightarrow> jskey item \<Rightarrow> jskey item \<Rightarrow> int" where
  "comparator eng a b =
     (if fst a = fst b then 0 else if js_gt eng (fst a) (fst b) then 1 else -1)"

text \<open>
  What ECMAScript guarantees of \<open>Array.prototype.sort\<close>: the result is a rearrangement of
  the array; and when the comparison function is consistent, as \<open>comparator\<close> is on keys of
  one kind, the result is in ascending order and stable. With keys of both kinds
  \<open>comparator\<close> is not consistent, and the order of the result is left to the engine.
\<close>

definition conforming :: "engine \<Rightarrow> bool" where
  "conforming eng \<longleftrightarrow>
     (\<forall>cmp xs. mset (array_sort eng cmp xs) = mset xs) \<and>
     (\<forall>xs. same_kind (map fst xs) \<longrightarrow> array_sort eng (comparator eng) xs = sort_key fst xs)"

text \<open>The merge walk over the two key-sorted item lists (the \<open>while\<close> loop).\<close>

fun merge_walk ::
  "engine \<Rightarrow> jskey item list \<Rightarrow> jskey item list \<Rightarrow> jskey item list \<Rightarrow> jskey item list
     \<Rightarrow> jskey item list \<times> jskey item list" where
  "merge_walk eng [] afters removed inserted = (removed, inserted @ afters)"
| "merge_walk eng (b # befores) [] removed inserted = (removed @ (b # befores), inserted)"
| "merge_walk eng (b # befores) (a # afters) removed inserted =
     (let result = comparator eng a b in
      if result = 0 then merge_walk eng befores afters removed inserted
      else if result = 1 then merge_walk eng befores (a # afters) (removed @ [b]) inserted
      else merge_walk eng (b # befores) afters removed (inserted @ [a]))"

text \<open>One pass of a loop \<open>for (item of items) { move = mk(item); move.make(result);
  moves.push(move) }\<close> over the pair (result, moves).\<close>

definition push_move :: "'k list \<times> 'k move list \<Rightarrow> 'k move \<Rightarrow> 'k list \<times> 'k move list" where
  "push_move st move = (make move (fst st), snd st @ [move])"

text \<open>The inner function \<open>moveItemIfNeeded\<close> of \<open>calculateIndexChanges\<close>.\<close>

definition moveItemIfNeeded ::
  "'k list \<Rightarrow> 'k list \<times> 'k move list \<Rightarrow> nat \<Rightarrow> 'k list \<times> 'k move list" where
  "moveItemIfNeeded target st index =
     (let k = target ! index in
      if at_index (fst st) index \<noteq> Some k
      then push_move st (Move k (indexOf (fst st) k) (int index))
      else st)"

definition calculateIndexChanges ::
  "'k list \<Rightarrow> 'k list \<Rightarrow> bool \<Rightarrow> 'k list \<times> 'k move list" where
  "calculateIndexChanges source target reversed =
     foldl (moveItemIfNeeded target) (source, [])
       (if reversed then rev [0..<length target] else [0..<length target])"

text \<open>\<open>Diff.deepEqual\<close> on two arrays of primitive keys: equal lengths and
  \<open>Object.is\<close> at every index.\<close>

definition deepEqual_keys :: "'k list \<Rightarrow> 'k list \<Rightarrow> bool" where
  "deepEqual_keys current next \<longleftrightarrow>
     length current = length next \<and> (\<forall>i < length current. current ! i = next ! i)"

text \<open>Removal and insertion phase: the state after the two \<open>for\<close> loops. The two
  sorts by index use a consistent comparison function (\<open>foo.index - bar.index\<close>), so their
  result is the stable ascending order.\<close>

definition setPhase :: "engine \<Rightarrow> jskey list \<Rightarrow> jskey list \<Rightarrow> jskey list \<times> jskey move list" where
  "setPhase eng source target =
     (let befores = array_sort eng (comparator eng) (createItems source);
          afters = array_sort eng (comparator eng) (createItems target);
          walked = merge_walk eng befores afters [] [];
          removed = rev (sort_key snd (fst walked));
          inserted = sort_key snd (snd walked);
          st = foldl (\<lambda>st i. push_move st (Remove (fst i) (int (snd i)))) (source, []) removed
      in foldl (\<lambda>st i. push_move st (Insert (fst i) (int (snd i)))) st inserted)"

text \<open>The result is the pair (\<open>moves.result\<close>, \<open>moves\<close>). \<open>favoredToMove\<close> is \<open>None\<close> for
  \<open>null\<close> or \<open>undefined\<close> and \<open>Some k\<close> for a key; the test \<open>favoredToMove && ...\<close> is on its
  truthiness.\<close>

definition favored_truthy :: "jskey option \<Rightarrow> bool" where
  "favored_truthy favoredToMove = (case favoredToMove of None \<Rightarrow> False | Some k \<Rightarrow> key_truthy k)"

definition calculateMoves ::
  "engine \<Rightarrow> jskey list \<Rightarrow> jskey list \<Rightarrow> jskey option \<Rightarrow> jskey list \<times> jskey move list" where
  "calculateMoves eng source target favoredToMove =
     (let st = setPhase eng source target; result = fst st; moves = snd st in
      if deepEqual_keys result target then (result, moves)
      else
        let defaultMoves = calculateIndexChanges result target False in
        if length (snd defaultMoves) > 1 \<or>
           (favored_truthy favoredToMove \<and> length (snd defaultMoves) = 1 \<and>
            Some (item (snd defaultMoves ! 0)) \<noteq> favoredToMove)
        then
          (let alternativeMoves = calculateIndexChanges result target True in
           if length (snd alternativeMoves) \<le> length (snd defaultMoves)
           then (fst alternativeMoves, moves @ snd alternativeMoves)
           else (fst defaultMoves, moves @ snd defaultMoves))
        else (fst defaultMoves, moves @ snd defaultMoves))"

subsection \<open>Longest common subsequence\<close>


subsection \<open>An engine for examples\<close>

text \<open>
  The sort of V8 for an array of fewer than 64 elements: the run at the start of the array
  is found (and reversed when it descends), and the remaining elements are put into it one
  by one by binary insertion. A longer array is merged from several such runs; the result
  is the same whenever the comparison function is consistent.
\<close>

fun run_length :: "('a \<Rightarrow> 'a \<Rightarrow> int) \<Rightarrow> bool \<Rightarrow> 'a \<Rightarrow> 'a list \<Rightarrow> nat" where
  "run_length cmp descending previous [] = 0"
| "run_length cmp descending previous (x # xs) =
     (let order = cmp x previous in
      if (if descending then order \<ge> 0 else order < 0) then 0
      else Suc (run_length cmp descending x xs))"

definition countAndMakeRun :: "('a \<Rightarrow> 'a \<Rightarrow> int) \<Rightarrow> 'a list \<Rightarrow> 'a list \<times> 'a list" where
  "countAndMakeRun cmp xs =
     (case xs of
        x0 # x1 # rest \<Rightarrow>
          (let descending = cmp x1 x0 < 0;
               n = 2 + run_length cmp descending x1 rest
           in (if descending then rev (take n xs) else take n xs, drop n xs))
      | _ \<Rightarrow> (xs, []))"

function binary_search :: "('a \<Rightarrow> 'a \<Rightarrow> int) \<Rightarrow> 'a \<Rightarrow> 'a list \<Rightarrow> nat \<Rightarrow> nat \<Rightarrow> nat" where
  "binary_search cmp pivot work left right =
     (if left < right
      then (let mid = left + (right - left) div 2 in
            if cmp pivot (work ! mid) < 0
            then binary_search cmp pivot work left mid
            else binary_search cmp pivot work (mid + 1) right)
      else left)"
  by pat_completeness auto
termination
  by (relation "measure (\<lambda>(cmp, pivot, work, left, right). right - left)") auto

declare binary_search.simps [simp del]

definition binary_insert :: "('a \<Rightarrow> 'a \<Rightarrow> int) \<Rightarrow> 'a list \<Rightarrow> 'a \<Rightarrow> 'a list" where
  "binary_insert cmp run pivot =
     (let left = binary_search cmp pivot run 0 (length run)
      in take left run @ [pivot] @ drop left run)"

definition v8_sort :: "('a \<Rightarrow> 'a \<Rightarrow> int) \<Rightarrow> 'a list \<Rightarrow> 'a list" where
  "v8_sort cmp xs =
     (if length xs < 2 then xs
      else (let r = countAndMakeRun cmp xs in foldl (binary_insert cmp) (fst r) (snd r)))"

text \<open>The conversion of a string to a number, on the empty string and on the decimal
  integers; every other string is taken as \<open>NaN\<close>, as the strings that are no numeric
  literals are.\<close>

fun digits_value :: "nat \<Rightarrow> string \<Rightarrow> nat option" where
  "digits_value acc [] = Some acc"
| "digits_value acc (c # cs) =
     (if CHR ''0'' \<le> c \<and> c \<le> CHR ''9''
      then digits_value (10 * acc + (of_char c - 48)) cs
      else None)"

definition decimal_toNumber :: "string \<Rightarrow> int option" where
  "decimal_toNumber s =
     (case s of
        [] \<Rightarrow> Some 0
      | c # cs \<Rightarrow>
          (if c = CHR ''-'' \<and> cs \<noteq> [] then map_option (\<lambda>n. - int n) (digits_value 0 cs)
           else map_option int (digits_value 0 s)))"

definition example_engine :: engine where
  "example_engine = \<lparr>toNumber = decimal_toNumber, array_sort = v8_sort\<rparr>"

section \<open>Patch batches and lifecycle notifications (core/diff, core/lifecycle)\<close>

text \<open>
  \<open>Diff.apply\<close> brackets the application of a patch batch with the lifecycle passes
  \<open>Lifecycle.beforeUpdate\<close> and \<open>Lifecycle.afterUpdate\<close>. What a hook or a patch does is
  recorded as an event in a log, in the order in which the calls are made; the log is the
  state threaded through the three loops. Hooks and patches are taken not to throw (the
  contract of the hook sink).
\<close>

datatype 'p event =
    BeforePatchApplied 'p
  | PatchApply 'p
  | AfterPatchApplied 'p

text \<open>\<open>for (const patch of patches) this.beforePatchApplied(patch)\<close>\<close>

definition beforeUpdate :: "'p list \<Rightarrow> 'p event list \<Rightarrow> 'p event list" where
  "beforeUpdate patches log = foldl (\<lambda>log patch. log @ [BeforePatchApplied patch]) log patches"

text \<open>\<open>patches = [...patches].reverse(); for (const patch of patches) this.afterPatchApplied(patch)\<close>\<close>

definition afterUpdate :: "'p list \<Rightarrow> 'p event list \<Rightarrow> 'p event list" where
  "afterUpdate patches log = foldl (\<lambda>log patch. log @ [AfterPatchApplied patch]) log (rev patches)"

definition Diff_apply :: "'p list \<Rightarrow> 'p event list \<Rightarrow> 'p event list" where
  "Diff_apply patches log =
     (if length patches \<noteq> 0
      then afterUpdate patches
             (foldl (\<lambda>log patch. log @ [PatchApply patch]) (beforeUpdate patches log) patches)
      else log)"

section \<open>Verification of the keyed reconciler\<close>

lemma push_fold:
  "foldl (\<lambda>st i. push_move st (f i)) st its =
     (foldl (\<lambda>r m. make m r) (fst st) (map f its), snd st @ map f its)"
  by (induction its arbitrary: st) (simp_all add: push_move_def)

lemma comparator_zero: "comparator eng a b = 0 \<longleftrightarrow> fst a = fst b"
  by (simp add: comparator_def)

lemma merge_walk_mset:
  "\<exists>mb ma. mset (fst (merge_walk eng bs as r i)) + mset mb = mset r + mset bs \<and>
           mset (snd (merge_walk eng bs as r i)) + mset ma = mset i + mset as \<and>
           map fst mb = map fst ma"
proof (induction eng bs as r i rule: merge_walk.induct)
  case (1 eng afters removed inserted)
  show ?case by (intro exI[of _ "[]"]) simp
next
  case (2 eng b befores removed inserted)
  show ?case by (intro exI[of _ "[]"]) simp
next
  case (3 eng b befores a afters removed inserted)
  consider (eq) "comparator eng a b = 0" | (gt) "comparator eng a b \<noteq> 0" "comparator eng a b = 1"
    | (lt) "comparator eng a b \<noteq> 0" "comparator eng a b \<noteq> 1"
    by blast
  then show ?case
  proof cases
    case eq
    have w: "merge_walk eng (b # befores) (a # afters) removed inserted =
             merge_walk eng befores afters removed inserted"
      using eq by simp
    obtain mb ma where m:
      "mset (fst (merge_walk eng befores afters removed inserted)) + mset mb = mset removed + mset befores"
      "mset (snd (merge_walk eng befores afters removed inserted)) + mset ma = mset inserted + mset afters"
      "map fst mb = map fst ma"
      using 3(1)[OF refl eq] by (elim exE conjE)
    have k: "fst a = fst b" using eq by (simp add: comparator_zero)
    show ?thesis
      unfolding w using m k by (intro exI[of _ "b # mb"] exI[of _ "a # ma"]) simp
  next
    case gt
    have w: "merge_walk eng (b # befores) (a # afters) removed inserted =
             merge_walk eng befores (a # afters) (removed @ [b]) inserted"
      using gt by simp
    obtain mb ma where m:
      "mset (fst (merge_walk eng befores (a # afters) (removed @ [b]) inserted)) + mset mb =
         mset (removed @ [b]) + mset befores"
      "mset (snd (merge_walk eng befores (a # afters) (removed @ [b]) inserted)) + mset ma =
         mset inserted + mset (a # afters)"
      "map fst mb = map fst ma"
      using 3(2)[OF refl gt] by (elim exE conjE)
    show ?thesis
      unfolding w using m by (intro exI[of _ mb] exI[of _ ma]) simp
  next
    case lt
    have w: "merge_walk eng (b # befores) (a # afters) removed inserted =
             merge_walk eng (b # befores) afters removed (inserted @ [a])"
      using lt by simp
    obtain mb ma where m:
      "mset (fst (merge_walk eng (b # befores) afters removed (inserted @ [a]))) + mset mb =
         mset removed + mset (b # befores)"
      "mset (snd (merge_walk eng (b # befores) afters removed (inserted @ [a]))) + mset ma =
         mset (inserted @ [a]) + mset afters"
      "map fst mb = map fst ma"
      using 3(3)[OF refl lt] by (elim exE conjE)
    show ?thesis
      unfolding w using m by (intro exI[of _ mb] exI[of _ ma]) simp
  qed
qed

lemma createItems_snoc: "createItems (xs @ [x]) = createItems xs @ [(x, length xs)]"
  by (simp add: createItems_def)

lemma map_fst_createItems: "map fst (createItems xs) = xs"
  by (simp add: createItems_def)

lemma map_snd_createItems: "map snd (createItems xs) = [0..<length xs]"
  by (simp add: createItems_def)

lemma distinct_createItems: "distinct (createItems xs)"
  using distinct_map[of snd "createItems xs"] by (simp add: map_snd_createItems)

lemma filter_singleton_distinct:
  "distinct (map f xs) \<Longrightarrow> k \<in> set xs \<Longrightarrow> filter (\<lambda>x. f k = f x) xs = [k]"
  by (induction xs) (auto simp: image_iff)

lemma mset_filter_member:
  assumes "mset rs + mset ms = mset xs" "distinct xs"
  shows "mset (filter (\<lambda>x. x \<in> set rs) xs) = mset rs"
    and "mset (filter (\<lambda>x. x \<notin> set rs) xs) = mset ms"
proof -
  have d: "distinct (rs @ ms)"
    using assms by (metis mset_append mset_eq_imp_distinct_iff)
  then have dis: "set rs \<inter> set ms = {}" and dr: "distinct rs" and dm: "distinct ms" by auto
  have s: "set xs = set rs \<union> set ms"
    using assms(1) by (metis mset_append mset_eq_setD set_append)
  have "set (filter (\<lambda>x. x \<in> set rs) xs) = set rs" using s by auto
  then show "mset (filter (\<lambda>x. x \<in> set rs) xs) = mset rs"
    using dr assms(2) by (metis distinct_filter set_eq_iff_mset_eq_distinct)
  have "set (filter (\<lambda>x. x \<notin> set rs) xs) = set ms" using s dis by auto
  then show "mset (filter (\<lambda>x. x \<notin> set rs) xs) = mset ms"
    using dm assms(2) by (metis distinct_filter set_eq_iff_mset_eq_distinct)
qed

lemma resort_by_index:
  assumes "mset rs = mset (filter P (createItems s))"
  shows "sort_key snd rs = filter P (createItems s)"
proof (rule properties_for_sort_key)
  show "mset (filter P (createItems s)) = mset rs" using assms by simp
  have d: "distinct (map snd (createItems s))" by (simp add: map_snd_createItems)
  show "sorted (map snd (filter P (createItems s)))"
    by (rule sorted_filter) (simp add: map_snd_createItems)
  fix k assume k: "k \<in> set (filter P (createItems s))"
  have d1: "distinct (map snd (filter P (createItems s)))"
    using d by (rule distinct_map_filter)
  have "mset (map snd rs) = mset (map snd (filter P (createItems s)))"
    using assms by simp
  then have d2: "distinct (map snd rs)"
    using d1 mset_eq_imp_distinct_iff by blast
  have k2: "k \<in> set rs" using k assms by (metis mset_eq_setD)
  show "filter (\<lambda>x. snd k = snd x) (filter P (createItems s)) = filter (\<lambda>x. snd k = snd x) rs"
    using filter_singleton_distinct[OF d1 k] filter_singleton_distinct[OF d2 k2] by simp
qed

lemma splice_start_int [simp]: "splice_start (int i) xs = min i (length xs)"
  by (simp add: splice_start_def)

lemma make_Remove_mid: "js_splice (int (length xs)) (Suc 0) [] (xs @ x # ys) = xs @ ys"
  by (simp add: js_splice_def)

lemma removals_apply:
  "foldl (\<lambda>r m. make m r) (xs @ ys)
     (map (\<lambda>i. Remove (fst i) (int (snd i))) (rev (filter P (createItems xs))))
   = map fst (filter (\<lambda>i. \<not> P i) (createItems xs)) @ ys"
proof (induction xs arbitrary: ys rule: rev_induct)
  case Nil
  then show ?case by (simp add: createItems_def)
next
  case (snoc x xs)
  show ?case
  proof (cases "P (x, length xs)")
    case True
    then show ?thesis
      using snoc[of ys] by (simp add: createItems_snoc make_Remove_mid)
  next
    case False
    then show ?thesis
      using snoc[of "x # ys"] by (simp add: createItems_snoc)
  qed
qed

lemma mset_take_drop: "mset (take n r) + mset (drop n r) = mset r"
proof -
  have "mset (take n r @ drop n r) = mset r" by (simp only: append_take_drop_id)
  then show ?thesis by (simp only: mset_append)
qed

lemma mset_insert_at: "mset (take n r @ [k] @ drop n r) = mset r + {#k#}"
proof -
  have "mset (take n r @ [k] @ drop n r) = (mset (take n r) + mset (drop n r)) + {#k#}"
    by simp
  then show ?thesis by (simp only: mset_take_drop)
qed

lemma mset_make_Insert: "mset (make (Insert k i) r) = mset r + {#k#}"
  using mset_insert_at[of _ r k] by (simp add: js_splice_def Let_def)

lemma insertions_mset:
  "mset (foldl (\<lambda>r m. make m r) r (map (\<lambda>i. Insert (fst i) (int (snd i))) its))
     = mset r + mset (map fst its)"
  by (induction its arbitrary: r) (simp_all add: mset_make_Insert del: make.simps)

text \<open>The removal and insertion phase, whatever the order of the two sorted lists.\<close>

lemma setPhase_walk:
  assumes "\<forall>cmp xs. mset (array_sort eng cmp xs) = mset xs"
  obtains rs ins mb ma where
    "merge_walk eng (array_sort eng (comparator eng) (createItems s))
       (array_sort eng (comparator eng) (createItems t)) [] [] = (rs, ins)"
    "mset rs + mset mb = mset (createItems s)"
    "mset ins + mset ma = mset (createItems t)"
    "map fst mb = map fst ma"
proof -
  let ?w = "merge_walk eng (array_sort eng (comparator eng) (createItems s))
       (array_sort eng (comparator eng) (createItems t)) [] []"
  obtain mb ma where
    "mset (fst ?w) + mset mb = mset [] + mset (array_sort eng (comparator eng) (createItems s))"
    "mset (snd ?w) + mset ma = mset [] + mset (array_sort eng (comparator eng) (createItems t))"
    "map fst mb = map fst ma"
    using merge_walk_mset[of eng "array_sort eng (comparator eng) (createItems s)"
        "array_sort eng (comparator eng) (createItems t)" "[]" "[]"]
    by (elim exE conjE)
  then show ?thesis
    using that[of "fst ?w" "snd ?w" mb ma] assms by simp
qed

lemma setPhase_consistent:
  "fst (setPhase eng s t) = foldl (\<lambda>r m. make m r) s (snd (setPhase eng s t))"
  unfolding setPhase_def Let_def push_fold by simp

lemma setPhase_mset:
  assumes "\<forall>cmp xs. mset (array_sort eng cmp xs) = mset xs"
  shows "mset (fst (setPhase eng s t)) = mset t"
proof -
  obtain rs ins mb ma where w:
    "merge_walk eng (array_sort eng (comparator eng) (createItems s))
       (array_sort eng (comparator eng) (createItems t)) [] [] = (rs, ins)"
    "mset rs + mset mb = mset (createItems s)"
    "mset ins + mset ma = mset (createItems t)"
    "map fst mb = map fst ma"
    using setPhase_walk[OF assms, of s t] by blast
  have f: "mset (filter (\<lambda>x. x \<in> set rs) (createItems s)) = mset rs"
    and g: "mset (filter (\<lambda>x. x \<notin> set rs) (createItems s)) = mset mb"
    using mset_filter_member[OF w(2) distinct_createItems] by simp_all
  have srt: "sort_key snd rs = filter (\<lambda>x. x \<in> set rs) (createItems s)"
    by (rule resort_by_index) (simp only: f)
  have rem: "foldl (\<lambda>r m. make m r) s
       (map (\<lambda>i. Remove (fst i) (int (snd i))) (rev (sort_key snd rs)))
     = map fst (filter (\<lambda>x. x \<notin> set rs) (createItems s))"
    using removals_apply[of s "[]" "\<lambda>x. x \<in> set rs"] by (simp add: srt)
  have "fst (setPhase eng s t) =
      foldl (\<lambda>r m. make m r) (map fst (filter (\<lambda>x. x \<notin> set rs) (createItems s)))
        (map (\<lambda>i. Insert (fst i) (int (snd i))) (sort_key snd ins))"
    unfolding setPhase_def Let_def w(1) fst_conv snd_conv push_fold
    by (simp only: rem fst_conv)
  then have "mset (fst (setPhase eng s t)) =
      mset (map fst (filter (\<lambda>x. x \<notin> set rs) (createItems s))) + mset (map fst (sort_key snd ins))"
    by (simp only: insertions_mset)
  also have "mset (map fst (filter (\<lambda>x. x \<notin> set rs) (createItems s))) = mset (map fst mb)"
    using g by (metis mset_map)
  also have "mset (map fst (sort_key snd ins)) = mset (map fst ins)"
    by (metis mset_map mset_sort)
  also have "mset (map fst mb) + mset (map fst ins) = mset (map fst (createItems t))"
    using w(3) w(4) by (metis mset_map union_commute mset_append map_append)
  finally show ?thesis by (simp add: map_fst_createItems)
qed

lemma indexOf_found:
  "x \<in> set xs \<Longrightarrow> \<exists>j. indexOf xs x = int j \<and> j < length xs \<and> xs ! j = x"
proof (induction xs)
  case Nil
  then show ?case by simp
next
  case (Cons y ys)
  show ?case
  proof (cases "y = x")
    case True
    then show ?thesis by auto
  next
    case False
    with Cons obtain j where j: "indexOf ys x = int j" "j < length ys" "ys ! j = x" by auto
    have "indexOf (y # ys) x = int (Suc j)" using False j by (simp add: Let_def)
    then show ?thesis using j by (intro exI[of _ "Suc j"]) auto
  qed
qed

lemma mset_remove_nth:
  assumes "j < length xs"
  shows "mset (take j xs @ drop (Suc j) xs) + {#xs ! j#} = mset xs"
proof -
  have "mset xs = mset (take j xs @ xs ! j # drop (Suc j) xs)"
    by (rule arg_cong[OF id_take_nth_drop[OF assms]])
  then show ?thesis by simp
qed

lemma make_Move_eq:
  assumes "j < length src" "i < length src"
  shows "make (Move k (int j) (int i)) src =
         take i (take j src @ drop (Suc j) src) @ [k] @ drop i (take j src @ drop (Suc j) src)"
proof -
  have l: "length (take j src @ drop (Suc j) src) = length src - Suc 0"
    using assms(1) by simp
  have a: "js_splice (int j) 1 [] src = take j src @ drop (Suc j) src"
    using assms(1) by (simp add: js_splice_def Let_def)
  have m: "min i (length src - Suc 0) = i" using assms(2) by simp
  have "js_splice (int i) 0 [k] (take j src @ drop (Suc j) src) =
        take i (take j src @ drop (Suc j) src) @ [k] @ drop i (take j src @ drop (Suc j) src)"
    unfolding js_splice_def Let_def splice_start_int l m by simp
  then show ?thesis using a by simp
qed

lemma mset_make_Move:
  assumes "j < length src" "i < length src" "src ! j = k"
  shows "mset (make (Move k (int j) (int i)) src) = mset src"
proof -
  let ?s = "take j src @ drop (Suc j) src"
  have "mset (take i ?s @ [k] @ drop i ?s) = mset ?s + {#src ! j#}"
    using assms(3) mset_insert_at[of i ?s k] by simp
  also have "\<dots> = mset src" using mset_remove_nth[OF assms(1)] .
  finally show ?thesis using make_Move_eq[OF assms(1,2)] by simp
qed

lemma forward_step:
  assumes ms: "mset src = mset target" and d: "distinct target" and i: "i < length target"
    and pre: "take i src = take i target"
  shows "mset (fst (moveItemIfNeeded target (src, ms') i)) = mset target \<and>
         take (Suc i) (fst (moveItemIfNeeded target (src, ms') i)) = take (Suc i) target"
proof -
  have len: "length src = length target" using ms by (rule mset_eq_length)
  let ?k = "target ! i"
  show ?thesis
  proof (cases "src ! i = ?k")
    case True
    then have "moveItemIfNeeded target (src, ms') i = (src, ms')"
      using i len by (simp add: moveItemIfNeeded_def at_index_def)
    moreover have "take (Suc i) src = take (Suc i) target"
      using True pre i len by (simp add: take_Suc_conv_app_nth)
    ultimately show ?thesis using ms by simp
  next
    case False
    have "?k \<in> set src" using i ms by (metis mset_eq_setD nth_mem)
    then have "\<exists>j. indexOf src ?k = int j \<and> j < length src \<and> src ! j = ?k"
      by (rule indexOf_found)
    then obtain j where j: "indexOf src ?k = int j" "j < length src" "src ! j = ?k"
      by (elim exE conjE)
    have ji: "i < j"
    proof (rule ccontr)
      assume "\<not> i < j"
      then have "j < i" using False j(3) by (metis linorder_neqE_nat)
      then have "src ! j = target ! j" using pre by (metis nth_take)
      then have "target ! j = target ! i" using j(3) by simp
      then show False using d i \<open>j < i\<close> by (simp add: nth_eq_iff_index_eq)
    qed
    let ?new = "make (Move ?k (int j) (int i)) src"
    have step: "moveItemIfNeeded target (src, ms') i = (?new, ms' @ [Move ?k (int j) (int i)])"
      using False i len j(1) by (simp add: moveItemIfNeeded_def at_index_def push_move_def Let_def)
    have il: "i < length src" using i len by simp
    have ti: "take i (take j src @ drop (Suc j) src) = take i src"
      using ji j(2) by (simp add: min_def)
    have new: "?new = take i src @ [?k] @ drop i (take j src @ drop (Suc j) src)"
      by (simp only: make_Move_eq[OF j(2) il] ti)
    have "take (Suc i) ?new = take i src @ [?k]"
      using new il by (simp add: min_def)
    also have "\<dots> = take (Suc i) target" using pre i by (simp add: take_Suc_conv_app_nth)
    finally have t: "take (Suc i) ?new = take (Suc i) target" .
    have "mset ?new = mset target" using mset_make_Move[OF j(2) il j(3)] ms by simp
    then show ?thesis using step t by simp
  qed
qed

lemma reverse_step:
  assumes ms: "mset src = mset target" and d: "distinct target" and i: "i < length target"
    and post: "drop (Suc i) src = drop (Suc i) target"
  shows "mset (fst (moveItemIfNeeded target (src, ms') i)) = mset target \<and>
         drop i (fst (moveItemIfNeeded target (src, ms') i)) = drop i target"
proof -
  have len: "length src = length target" using ms by (rule mset_eq_length)
  let ?k = "target ! i"
  show ?thesis
  proof (cases "src ! i = ?k")
    case True
    then have "moveItemIfNeeded target (src, ms') i = (src, ms')"
      using i len by (simp add: moveItemIfNeeded_def at_index_def)
    moreover have "drop i src = drop i target"
      using True post i len by (metis Cons_nth_drop_Suc)
    ultimately show ?thesis using ms by simp
  next
    case False
    have "?k \<in> set src" using i ms by (metis mset_eq_setD nth_mem)
    then have "\<exists>j. indexOf src ?k = int j \<and> j < length src \<and> src ! j = ?k"
      by (rule indexOf_found)
    then obtain j where j: "indexOf src ?k = int j" "j < length src" "src ! j = ?k"
      by (elim exE conjE)
    have ji: "j < i"
    proof (rule ccontr)
      assume "\<not> j < i"
      then have gt: "i < j" using False j(3) by (metis linorder_neqE_nat)
      have "src ! j = drop (Suc i) src ! (j - Suc i)" using gt j(2) by simp
      also have "\<dots> = drop (Suc i) target ! (j - Suc i)" using post by simp
      also have "\<dots> = target ! j" using gt j(2) len by simp
      finally have "target ! j = target ! i" using j(3) by simp
      then show False using d i gt j(2) len by (simp add: nth_eq_iff_index_eq)
    qed
    let ?new = "make (Move ?k (int j) (int i)) src"
    define s where "s = take j src @ drop (Suc j) src"
    have step: "moveItemIfNeeded target (src, ms') i = (?new, ms' @ [Move ?k (int j) (int i)])"
      using False i len j(1) by (simp add: moveItemIfNeeded_def at_index_def push_move_def Let_def)
    have il: "i < length src" using i len by simp
    have new: "?new = take i s @ [?k] @ drop i s"
      unfolding s_def by (rule make_Move_eq[OF j(2) il])
    have lens: "length s = length src - Suc 0" using j(2) by (simp add: s_def)
    have ls: "length (take i s) = i" using il lens by simp
    have ds: "drop i s = drop (Suc i) src" using ji j(2) il by (simp add: s_def)
    have "drop i (take i s @ [?k] @ drop i s) = ?k # drop i s"
      using ls by simp
    then have "drop i ?new = ?k # drop (Suc i) src" using new ds by simp
    also have "\<dots> = drop i target" using post i by (simp add: Cons_nth_drop_Suc)
    finally have t: "drop i ?new = drop i target" .
    have "mset ?new = mset target" using mset_make_Move[OF j(2) il j(3)] ms by simp
    then show ?thesis using step t by simp
  qed
qed

lemma forward_scan:
  assumes d: "distinct target"
  shows "mset src = mset target \<Longrightarrow> i \<le> length target \<Longrightarrow> take i src = take i target \<Longrightarrow>
         fst (foldl (moveItemIfNeeded target) (src, ms') [i..<length target]) = target"
proof (induction "length target - i" arbitrary: i src ms')
  case 0
  then have "i = length target" by simp
  moreover have "length src = length target" using 0(2) by (rule mset_eq_length)
  ultimately show ?case using 0(4) by simp
next
  case (Suc n)
  then have i: "i < length target" by simp
  obtain src2 ms2 where st: "moveItemIfNeeded target (src, ms') i = (src2, ms2)"
    by (cases "moveItemIfNeeded target (src, ms') i")
  have inv: "mset src2 = mset target" "take (Suc i) src2 = take (Suc i) target"
    using forward_step[OF Suc(3) d i Suc(5), of ms'] st by simp_all
  have "fst (foldl (moveItemIfNeeded target) (src2, ms2) [Suc i..<length target]) = target"
    using Suc(1)[of "Suc i" src2 ms2] Suc(2) i inv by simp
  then show ?case using i st by (simp add: upt_conv_Cons)
qed

lemma reverse_scan:
  assumes d: "distinct target"
  shows "mset src = mset target \<Longrightarrow> k \<le> length target \<Longrightarrow> drop k src = drop k target \<Longrightarrow>
         fst (foldl (moveItemIfNeeded target) (src, ms') (rev [0..<k])) = target"
proof (induction k arbitrary: src ms')
  case 0
  then show ?case by simp
next
  case (Suc k)
  then have i: "k < length target" by simp
  obtain src2 ms2 where st: "moveItemIfNeeded target (src, ms') k = (src2, ms2)"
    by (cases "moveItemIfNeeded target (src, ms') k")
  have inv: "mset src2 = mset target" "drop k src2 = drop k target"
    using reverse_step[OF Suc(2) d i Suc(4), of ms'] st by simp_all
  have "fst (foldl (moveItemIfNeeded target) (src2, ms2) (rev [0..<k])) = target"
    using Suc(1)[of src2 ms2] i inv by simp
  then show ?case using st by simp
qed

lemma calculateIndexChanges_result:
  assumes "distinct target" "mset src = mset target"
  shows "fst (calculateIndexChanges src target reversed) = target"
proof (cases reversed)
  case True
  have "drop (length target) src = drop (length target) target"
    using mset_eq_length[OF assms(2)] by simp
  then show ?thesis
    using reverse_scan[OF assms(1) assms(2), of "length target" "[]"] True
    by (simp add: calculateIndexChanges_def)
next
  case False
  then show ?thesis
    using forward_scan[OF assms(1) assms(2), of 0 "[]"]
    by (simp add: calculateIndexChanges_def)
qed

lemma moveItemIfNeeded_moves:
  "\<exists>new. snd (moveItemIfNeeded target st i) = snd st @ new \<and> list_all isMove new \<and>
         fst (moveItemIfNeeded target st i) = foldl (\<lambda>r m. make m r) (fst st) new"
proof (cases "at_index (fst st) i \<noteq> Some (target ! i)")
  case True
  let ?m = "Move (target ! i) (indexOf (fst st) (target ! i)) (int i)"
  have "moveItemIfNeeded target st i = (make ?m (fst st), snd st @ [?m])"
    using True by (simp add: moveItemIfNeeded_def push_move_def Let_def)
  then show ?thesis by (intro exI[of _ "[?m]"]) simp
next
  case False
  then have "moveItemIfNeeded target st i = st"
    by (simp add: moveItemIfNeeded_def Let_def)
  then show ?thesis by (intro exI[of _ "[]"]) simp
qed

lemma scan_moves:
  "\<exists>new. snd (foldl (moveItemIfNeeded target) st idxs) = snd st @ new \<and> list_all isMove new \<and>
         fst (foldl (moveItemIfNeeded target) st idxs) = foldl (\<lambda>r m. make m r) (fst st) new"
proof (induction idxs arbitrary: st)
  case Nil
  show ?case by (intro exI[of _ "[]"]) simp
next
  case (Cons i idxs)
  obtain n1 where n1: "snd (moveItemIfNeeded target st i) = snd st @ n1" "list_all isMove n1"
    "fst (moveItemIfNeeded target st i) = foldl (\<lambda>r m. make m r) (fst st) n1"
    using moveItemIfNeeded_moves[of target st i] by (elim exE conjE)
  obtain n2 where n2:
    "snd (foldl (moveItemIfNeeded target) (moveItemIfNeeded target st i) idxs) =
       snd (moveItemIfNeeded target st i) @ n2" "list_all isMove n2"
    "fst (foldl (moveItemIfNeeded target) (moveItemIfNeeded target st i) idxs) =
       foldl (\<lambda>r m. make m r) (fst (moveItemIfNeeded target st i)) n2"
    using Cons[of "moveItemIfNeeded target st i"] by (elim exE conjE)
  show ?case
    using n1 n2 by (intro exI[of _ "n1 @ n2"]) simp
qed

lemma calculateIndexChanges_moves:
  "list_all isMove (snd (calculateIndexChanges src target reversed)) \<and>
   fst (calculateIndexChanges src target reversed) =
     foldl (\<lambda>r m. make m r) src (snd (calculateIndexChanges src target reversed))"
proof -
  let ?idxs = "if reversed then rev [0..<length target] else [0..<length target]"
  obtain new where "snd (foldl (moveItemIfNeeded target) (src, []) ?idxs) = snd (src, []::'a move list) @ new"
    "list_all isMove new"
    "fst (foldl (moveItemIfNeeded target) (src, []) ?idxs) = foldl (\<lambda>r m. make m r) (fst (src, []::'a move list)) new"
    using scan_moves[of target "(src, [])" ?idxs] by (elim exE conjE)
  then show ?thesis by (simp add: calculateIndexChanges_def)
qed

lemma deepEqual_keys_eq: "deepEqual_keys xs ys \<longleftrightarrow> xs = ys"
  by (auto simp: deepEqual_keys_def list_eq_iff_nth_eq)


lemma calculateMoves_cases:
  obtains (same) "fst (setPhase eng s t) = t" "calculateMoves eng s t f = setPhase eng s t"
  | (scan) reversed where "fst (setPhase eng s t) \<noteq> t"
      "calculateMoves eng s t f =
         (fst (calculateIndexChanges (fst (setPhase eng s t)) t reversed),
          snd (setPhase eng s t) @ snd (calculateIndexChanges (fst (setPhase eng s t)) t reversed))"
proof (cases "fst (setPhase eng s t) = t")
  case True
  then have "calculateMoves eng s t f = setPhase eng s t"
    by (simp add: calculateMoves_def Let_def deepEqual_keys_eq prod_eq_iff)
  then show ?thesis using True same by blast
next
  case False
  have "calculateMoves eng s t f =
         (fst (calculateIndexChanges (fst (setPhase eng s t)) t True),
          snd (setPhase eng s t) @ snd (calculateIndexChanges (fst (setPhase eng s t)) t True))
     \<or> calculateMoves eng s t f =
         (fst (calculateIndexChanges (fst (setPhase eng s t)) t False),
          snd (setPhase eng s t) @ snd (calculateIndexChanges (fst (setPhase eng s t)) t False))"
    using False by (simp add: calculateMoves_def Let_def deepEqual_keys_eq)
  then show ?thesis using False scan by blast
qed

lemma conforming_mset: "conforming eng \<Longrightarrow> \<forall>cmp xs. mset (array_sort eng cmp xs) = mset xs"
  by (simp add: conforming_def)

text \<open>
  Claim C10. For duplicate-free key sequences \<open>source\<close> and \<open>target\<close>, applying the
  \<open>make\<close> transformation of every returned move, in order, to a copy of \<open>source\<close>
  gives \<open>target\<close>, and the \<open>result\<close> field attached to the move list is \<open>target\<close>. This
  holds on every conforming engine and for keys of both kinds in one sequence, since only
  the rearranging property of the sort is used.
\<close>

theorem calculateMoves_reaches_target:
  assumes "conforming eng" "distinct source" "distinct target"
  shows "foldl (\<lambda>items m. make m items) source (snd (calculateMoves eng source target favoredToMove)) = target
       \<and> fst (calculateMoves eng source target favoredToMove) = target"
proof (cases rule: calculateMoves_cases[of eng source target favoredToMove])
  case same
  then show ?thesis using setPhase_consistent[of eng source target] by simp
next
  case (scan reversed)
  let ?c = "calculateIndexChanges (fst (setPhase eng source target)) target reversed"
  have "fst ?c = target"
    using calculateIndexChanges_result[OF assms(3) setPhase_mset[OF conforming_mset[OF assms(1)]]] .
  moreover have "foldl (\<lambda>r m. make m r) source (snd (setPhase eng source target) @ snd ?c) = fst ?c"
    using calculateIndexChanges_moves[of "fst (setPhase eng source target)" target reversed]
      setPhase_consistent[of eng source target] by simp
  ultimately show ?thesis using scan(2) by simp
qed


lemma js_gt_same_kind: "isNum x = isNum y \<Longrightarrow> js_gt eng x y \<longleftrightarrow> y < x"
  by (cases x; cases y) (auto simp: less_jskey_def)

lemma comparator_same_kind:
  assumes "isNum (fst a) = isNum (fst b)"
  shows "comparator eng a b = (if fst a = fst b then 0 else if fst b < fst a then 1 else -1)"
  using js_gt_same_kind[OF assms] by (simp add: comparator_def)

lemma merge_walk_filter:
  assumes "sorted_wrt (<) (map fst bs)" "sorted_wrt (<) (map fst as)"
    and "\<forall>b\<in>set bs. \<forall>a\<in>set as. isNum (fst a) = isNum (fst b)"
  shows "merge_walk eng bs as r i =
    (r @ filter (\<lambda>b. fst b \<notin> fst ` set as) bs, i @ filter (\<lambda>a. fst a \<notin> fst ` set bs) as)"
  using assms
proof (induction eng bs as r i rule: merge_walk.induct)
  case (1 eng afters removed inserted)
  then show ?case by simp
next
  case (2 eng b befores removed inserted)
  then show ?case by simp
next
  case (3 eng b befores a afters removed inserted)
  have sb: "sorted_wrt (<) (map fst befores)" and sa: "sorted_wrt (<) (map fst afters)"
    and bl: "\<forall>x\<in>set befores. fst b < fst x" and al: "\<forall>x\<in>set afters. fst a < fst x"
    using 3(4,5) by auto
  have kab: "isNum (fst a) = isNum (fst b)"
    using 3(6) by simp
  have k0: "\<forall>u\<in>set befores. \<forall>v\<in>set afters. isNum (fst v) = isNum (fst u)"
    using 3(6) by (meson list.set_intros(2))
  have k1: "\<forall>u\<in>set befores. \<forall>v\<in>set (a # afters). isNum (fst v) = isNum (fst u)"
    using 3(6) by (meson list.set_intros(2))
  have k2: "\<forall>u\<in>set (b # befores). \<forall>v\<in>set afters. isNum (fst v) = isNum (fst u)"
    using 3(6) by (meson list.set_intros(2))
  note cmp = comparator_same_kind[OF kab, of eng]
  consider (eq) "fst a = fst b" | (gt) "fst a > fst b" | (lt) "fst a < fst b"
    by (meson not_less_iff_gr_or_eq)
  then show ?case
  proof cases
    case eq
    have c: "comparator eng a b = 0" using eq by (simp add: cmp)
    have "merge_walk eng (b # befores) (a # afters) removed inserted = merge_walk eng befores afters removed inserted"
      using c by simp
    also have "\<dots> = (removed @ filter (\<lambda>b. fst b \<notin> fst ` set afters) befores,
                     inserted @ filter (\<lambda>a. fst a \<notin> fst ` set befores) afters)"
      using 3(1)[OF refl c sb sa k0] .
    also have "filter (\<lambda>b. fst b \<notin> fst ` set afters) befores = filter (\<lambda>x. fst x \<notin> fst ` set (a # afters)) (b # befores)"
      using eq bl by (auto intro!: filter_cong)
    also have "filter (\<lambda>a. fst a \<notin> fst ` set befores) afters = filter (\<lambda>x. fst x \<notin> fst ` set (b # befores)) (a # afters)"
      using eq al by (auto intro!: filter_cong)
    finally show ?thesis .
  next
    case gt
    have c: "comparator eng a b \<noteq> 0" "comparator eng a b = 1" using gt by (auto simp: cmp)
    have "merge_walk eng (b # befores) (a # afters) removed inserted = merge_walk eng befores (a # afters) (removed @ [b]) inserted"
      using c by simp
    also have "\<dots> = ((removed @ [b]) @ filter (\<lambda>b. fst b \<notin> fst ` set (a # afters)) befores,
                     inserted @ filter (\<lambda>a. fst a \<notin> fst ` set befores) (a # afters))"
      using 3(2)[OF refl c sb 3(5) k1] .
    also have "(removed @ [b]) @ filter (\<lambda>b. fst b \<notin> fst ` set (a # afters)) befores = removed @ filter (\<lambda>x. fst x \<notin> fst ` set (a # afters)) (b # befores)"
      using gt al by (auto)
    also have "filter (\<lambda>a. fst a \<notin> fst ` set befores) (a # afters) = filter (\<lambda>x. fst x \<notin> fst ` set (b # befores)) (a # afters)"
      using gt al by (intro filter_cong) (auto)
    finally show ?thesis .
  next
    case lt
    have c: "comparator eng a b \<noteq> 0" "comparator eng a b \<noteq> 1" using lt by (auto simp: cmp)
    have "merge_walk eng (b # befores) (a # afters) removed inserted = merge_walk eng (b # befores) afters removed (inserted @ [a])"
      using c by simp
    also have "\<dots> = (removed @ filter (\<lambda>x. fst x \<notin> fst ` set afters) (b # befores),
                     (inserted @ [a]) @ filter (\<lambda>x. fst x \<notin> fst ` set (b # befores)) afters)"
      using 3(3)[OF refl c 3(4) sa k2] .
    also have "(inserted @ [a]) @ filter (\<lambda>x. fst x \<notin> fst ` set (b # befores)) afters = inserted @ filter (\<lambda>x. fst x \<notin> fst ` set (b # befores)) (a # afters)"
      using lt bl by (auto)
    also have "filter (\<lambda>x. fst x \<notin> fst ` set afters) (b # befores) = filter (\<lambda>x. fst x \<notin> fst ` set (a # afters)) (b # befores)"
      using lt bl by (intro filter_cong) (auto)
    finally show ?thesis .
  qed
qed

lemma keys_filter_createItems:
  "map fst (filter (\<lambda>a. Q (fst a)) (createItems xs)) = filter Q xs"
proof -
  have "filter Q (map fst (createItems xs)) = map fst (filter (Q \<circ> fst) (createItems xs))"
    by (rule filter_map)
  then show ?thesis by (simp add: map_fst_createItems comp_def)
qed

lemma sorted_items:
  assumes "distinct s"
  shows "sorted_wrt (<) (map fst (sort_key fst (createItems s)))"
  by (metis (no_types, lifting) assms card_distinct distinct_card length_map
    length_sort list.set_map map_fst_createItems set_sort sorted_sort_key
    strict_sorted_iff)

lemma set_sorted_items: "fst ` set (sort_key fst (createItems s)) = set s"
  by (metis set_sort map_fst_createItems list.set_map)


lemma same_kind_append: "same_kind (xs @ ys) \<Longrightarrow> same_kind xs \<and> same_kind ys"
  by (auto simp: same_kind_def)

lemma same_kind_cross:
  "same_kind (xs @ ys) \<Longrightarrow> x \<in> set xs \<Longrightarrow> y \<in> set ys \<Longrightarrow> isNum y = isNum x"
  by (auto simp: same_kind_def)

lemma conforming_sort:
  "conforming eng \<Longrightarrow> same_kind ks \<Longrightarrow>
   array_sort eng (comparator eng) (createItems ks) = sort_key fst (createItems ks)"
  by (simp add: conforming_def map_fst_createItems)

lemma walk_sorted:
  assumes "distinct s" "distinct t" "same_kind (s @ t)"
  shows "merge_walk eng (sort_key fst (createItems s)) (sort_key fst (createItems t)) [] [] =
    (filter (\<lambda>b. fst b \<notin> set t) (sort_key fst (createItems s)),
     filter (\<lambda>a. fst a \<notin> set s) (sort_key fst (createItems t)))"
proof -
  have k: "fst ` set (createItems xs) = set xs" for xs :: "jskey list"
    using map_fst_createItems[of xs] by (metis list.set_map)
  have c: "\<forall>b\<in>set (sort_key fst (createItems s)). \<forall>a\<in>set (sort_key fst (createItems t)).
             isNum (fst a) = isNum (fst b)"
  proof (intro ballI)
    fix b a assume "b \<in> set (sort_key fst (createItems s))" "a \<in> set (sort_key fst (createItems t))"
    then have "fst b \<in> set s" "fst a \<in> set t" using k by (auto simp: image_iff)
    then show "isNum (fst a) = isNum (fst b)" using same_kind_cross[OF assms(3)] by blast
  qed
  show ?thesis
    using merge_walk_filter[OF sorted_items[OF assms(1)] sorted_items[OF assms(2)] c, of eng "[]" "[]"]
    by (simp add: k)
qed

lemma resort_filter:
  "sort_key snd (filter P (sort_key fst (createItems s))) = filter P (createItems s)"
  by (rule resort_by_index) simp

lemma removals_apply_keys:
  "foldl (\<lambda>r m. make m r) xs
     (map (\<lambda>i. Remove (fst i) (int (snd i))) (rev (filter (\<lambda>b. Q (fst b)) (createItems xs))))
   = filter (\<lambda>k. \<not> Q k) xs"
proof -
  have "map fst (filter (\<lambda>i. \<not> Q (fst i)) (createItems xs)) = filter (\<lambda>k. \<not> Q k) xs"
    by (rule keys_filter_createItems)
  then show ?thesis
    using removals_apply[of xs "[]" "\<lambda>b. Q (fst b)"] by simp
qed

lemma setPhase_eq:
  assumes "conforming eng" "distinct s" "distinct t" "same_kind (s @ t)"
  shows "setPhase eng s t =
    (foldl (\<lambda>r m. make m r) (filter (\<lambda>k. k \<in> set t) s)
       (map (\<lambda>i. Insert (fst i) (int (snd i))) (filter (\<lambda>a. fst a \<notin> set s) (createItems t))),
     map (\<lambda>i. Remove (fst i) (int (snd i))) (rev (filter (\<lambda>b. fst b \<notin> set t) (createItems s))) @
     map (\<lambda>i. Insert (fst i) (int (snd i))) (filter (\<lambda>a. fst a \<notin> set s) (createItems t)))"
proof -
  have k: "same_kind s" "same_kind t" using same_kind_append[OF assms(4)] by simp_all
  have r: "foldl (\<lambda>r m. make m r) s
     (map (\<lambda>i. Remove (fst i) (int (snd i))) (rev (filter (\<lambda>b. fst b \<notin> set t) (createItems s))))
     = filter (\<lambda>k. k \<in> set t) s"
    using removals_apply_keys[of s "\<lambda>k. k \<notin> set t"] by simp
  show ?thesis
    unfolding setPhase_def Let_def conforming_sort[OF assms(1) k(1)] conforming_sort[OF assms(1) k(2)]
      walk_sorted[OF assms(2,3,4)] fst_conv snd_conv resort_filter push_fold
    by (simp add: r)
qed










lemma setPhase_same_keys:
  assumes "conforming eng" "distinct s" "distinct t" "same_kind s" "set s = set t"
  shows "setPhase eng s t = (s, [])"
proof -
  have sk: "same_kind (s @ t)" using assms(4,5) by (auto simp: same_kind_def)
  have a: "filter (\<lambda>k. k \<notin> set t) s = []"
    unfolding assms(5)[symmetric] by (simp add: filter_empty_conv)
  have b: "filter (\<lambda>k. k \<notin> set s) t = []"
    unfolding assms(5) by (simp add: filter_empty_conv)
  have "map fst (filter (\<lambda>b. fst b \<notin> set t) (createItems s)) = []"
    using keys_filter_createItems[of "\<lambda>k. k \<notin> set t" s] a by simp
  then have f1: "filter (\<lambda>b. fst b \<notin> set t) (createItems s) = []"
    by (simp only: map_is_Nil_conv)
  have "map fst (filter (\<lambda>a. fst a \<notin> set s) (createItems t)) = []"
    using keys_filter_createItems[of "\<lambda>k. k \<notin> set s" t] b by simp
  then have f2: "filter (\<lambda>a. fst a \<notin> set s) (createItems t) = []"
    by (simp only: map_is_Nil_conv)
  have c: "filter (\<lambda>k. k \<in> set t) s = s"
    unfolding assms(5)[symmetric] by simp
  show ?thesis
    unfolding setPhase_eq[OF assms(1,2,3) sk] f1 f2 c by simp
qed

lemma step_skip:
  "i < length src \<Longrightarrow> src ! i = target ! i \<Longrightarrow> moveItemIfNeeded target (src, ms) i = (src, ms)"
  by (simp add: moveItemIfNeeded_def at_index_def)

lemma step_move:
  "i < length src \<Longrightarrow> src ! i \<noteq> target ! i \<Longrightarrow> indexOf src (target ! i) = int j \<Longrightarrow>
   j < length src \<Longrightarrow>
   moveItemIfNeeded target (src, ms) i =
     (take i (take j src @ drop (Suc j) src) @ [target ! i] @ drop i (take j src @ drop (Suc j) src),
      ms @ [Move (target ! i) (int j) (int i)])"
  using make_Move_eq[of j src i "target ! i"]
  by (simp add: moveItemIfNeeded_def at_index_def push_move_def Let_def del: make.simps)


lemma upt3: "[0..<length [a, b, c]] = [0, 1, 2]"
  by (simp add: upt_rec)



lemma scan3_fwd:
  assumes "distinct [x, y, z]"
  shows "calculateIndexChanges [x, y, z] [y, x, z] False = ([y, x, z], [Move y 1 0])"
proof -
  have ne: "x \<noteq> y" "x \<noteq> z" "y \<noteq> z" using assms by auto
  have s0: "moveItemIfNeeded [y, x, z] ([x, y, z], []) 0 = ([y, x, z], [Move y 1 0])"
    using step_move[of 0 "[x, y, z]" "[y, x, z]" 1 "[]"] ne by simp
  have s1: "moveItemIfNeeded [y, x, z] ([y, x, z], ms) 1 = ([y, x, z], ms)" for ms
    by (rule step_skip) simp_all
  have s2: "moveItemIfNeeded [y, x, z] ([y, x, z], ms) 2 = ([y, x, z], ms)" for ms
    by (rule step_skip) simp_all
  show ?thesis
    by (simp only: calculateIndexChanges_def if_False upt3 foldl.simps s0 s1 s2)
qed

lemma scan3_rev:
  assumes "distinct [x, y, z]"
  shows "calculateIndexChanges [x, y, z] [y, x, z] True = ([y, x, z], [Move x 0 1])"
proof -
  have ne: "x \<noteq> y" "x \<noteq> z" "y \<noteq> z" using assms by auto
  have s2: "moveItemIfNeeded [y, x, z] ([x, y, z], ms) 2 = ([x, y, z], ms)" for ms
    by (rule step_skip) simp_all
  have s1: "moveItemIfNeeded [y, x, z] ([x, y, z], []) 1 = ([y, x, z], [Move x 0 1])"
    using step_move[of 1 "[x, y, z]" "[y, x, z]" 0 "[]"] ne by simp
  have s0: "moveItemIfNeeded [y, x, z] ([y, x, z], ms) 0 = ([y, x, z], ms)" for ms
    by (rule step_skip) simp_all
  have r: "rev [0, 1, 2::nat] = [2, 1, 0]" by simp
  show ?thesis
    by (simp only: calculateIndexChanges_def if_True upt3 r foldl.simps s0 s1 s2)
qed



text \<open>
  Claim C2, as the code has it. For source \<open>[x, y, z]\<close> (distinct keys of one kind) and
  target \<open>[y, x, z]\<close>, exactly one move is emitted. With a truthy \<open>x\<close> passed as
  \<open>favoredToMove\<close> the move relocates the favoured key \<open>x\<close> from index 0 to index 1; with no
  favoured key or a falsy one (\<open>null\<close>, \<open>0\<close>, the empty string) it is \<open>y\<close> that moves, from
  index 1 to index 0. In general, when the forward scan yields a single move of a key other
  than a truthy \<open>favoredToMove\<close>, the moves of the reverse scan are returned if there is at
  most one of them, and the forward move otherwise.
\<close>

theorem calculateMoves_favored_key:
  "(conforming eng \<and> distinct [x, y, z] \<and> same_kind [x, y, z] \<longrightarrow>
      (key_truthy x \<longrightarrow>
         calculateMoves eng [x, y, z] [y, x, z] (Some x) = ([y, x, z], [Move x 0 1])) \<and>
      (\<not> favored_truthy f \<longrightarrow>
         calculateMoves eng [x, y, z] [y, x, z] f = ([y, x, z], [Move y 1 0]))) \<and>
   (fst (setPhase eng source target) \<noteq> target \<and>
    snd (calculateIndexChanges (fst (setPhase eng source target)) target False) = [m] \<and>
    item m \<noteq> k \<and> key_truthy k \<longrightarrow>
      snd (calculateMoves eng source target (Some k)) =
        snd (setPhase eng source target) @
        (let alt = snd (calculateIndexChanges (fst (setPhase eng source target)) target True)
         in if length alt \<le> 1 then alt else [m]))"
proof (intro conjI impI)
  assume h: "conforming eng \<and> distinct [x, y, z] \<and> same_kind [x, y, z]"
  then have d: "distinct [x, y, z]" by simp
  have d2: "distinct [y, x, z]" using d by auto
  have sp: "setPhase eng [x, y, z] [y, x, z] = ([x, y, z], [])"
    using h by (intro setPhase_same_keys[OF _ d d2]) auto
  have xy: "x \<noteq> y" using d by simp
  then have yx: "y \<noteq> x" by (rule not_sym)
  have ne: "\<not> deepEqual_keys [x, y, z] [y, x, z]"
    using xy by (simp add: deepEqual_keys_eq)
  {
    assume t: "key_truthy x"
    show "calculateMoves eng [x, y, z] [y, x, z] (Some x) = ([y, x, z], [Move x 0 1])"
      by (simp add: calculateMoves_def sp ne yx t favored_truthy_def scan3_fwd[OF d] scan3_rev[OF d] Let_def)
  }
  {
    assume t: "\<not> favored_truthy f"
    show "calculateMoves eng [x, y, z] [y, x, z] f = ([y, x, z], [Move y 1 0])"
      by (simp add: calculateMoves_def sp ne t scan3_fwd[OF d] scan3_rev[OF d] Let_def)
  }
next
  assume a: "fst (setPhase eng source target) \<noteq> target \<and>
    snd (calculateIndexChanges (fst (setPhase eng source target)) target False) = [m] \<and>
    item m \<noteq> k \<and> key_truthy k"
  then show "snd (calculateMoves eng source target (Some k)) =
        snd (setPhase eng source target) @
        (let alt = snd (calculateIndexChanges (fst (setPhase eng source target)) target True)
         in if length alt \<le> 1 then alt else [m])"
    by (simp add: calculateMoves_def deepEqual_keys_eq favored_truthy_def Let_def)
qed

subsection \<open>The example engine conforms\<close>

text \<open>Its sort rearranges, whatever the comparison function.\<close>

lemma mset_countAndMakeRun:
  "mset (fst (countAndMakeRun cmp xs)) + mset (snd (countAndMakeRun cmp xs)) = mset xs"
proof (cases xs)
  case Nil
  then show ?thesis by (simp add: countAndMakeRun_def)
next
  case (Cons x0 ys)
  show ?thesis
  proof (cases ys)
    case Nil
    then show ?thesis using Cons by (simp add: countAndMakeRun_def)
  next
    case (Cons x1 rest)
    have "fst (countAndMakeRun cmp xs) = rev (take (2 + run_length cmp True x1 rest) xs) \<and>
          snd (countAndMakeRun cmp xs) = drop (2 + run_length cmp True x1 rest) xs
        \<or> fst (countAndMakeRun cmp xs) = take (2 + run_length cmp False x1 rest) xs \<and>
          snd (countAndMakeRun cmp xs) = drop (2 + run_length cmp False x1 rest) xs"
      unfolding countAndMakeRun_def \<open>xs = x0 # ys\<close> Cons by (simp add: Let_def)
    then show ?thesis
      using mset_take_drop[of _ xs] by (metis mset_rev)
  qed
qed

lemma mset_binary_insert: "mset (binary_insert cmp run pivot) = mset run + {#pivot#}"
proof -
  have "mset (take n run @ [pivot] @ drop n run) = (mset (take n run) + mset (drop n run)) + {#pivot#}" for n
    by simp
  then show ?thesis by (simp only: binary_insert_def Let_def mset_take_drop)
qed

lemma mset_foldl_binary_insert:
  "mset (foldl (binary_insert cmp) run rest) = mset run + mset rest"
  by (induction rest arbitrary: run) (simp_all add: mset_binary_insert)

lemma mset_v8_sort: "mset (v8_sort cmp xs) = mset xs"
  using mset_countAndMakeRun[of cmp xs]
  by (simp add: v8_sort_def Let_def mset_foldl_binary_insert)

text \<open>With a comparison function that follows a linear order of keys, it is the stable
  sort.\<close>

lemma run_length_le: "run_length cmp d p ys \<le> length ys"
  by (induction ys arbitrary: p) (simp_all add: Let_def)

lemma run_ascending:
  assumes "\<forall>a\<in>set (p # ys). \<forall>b\<in>set (p # ys). (cmp a b < 0) = (f a < f b)"
  shows "sorted (map f (p # take (run_length cmp False p ys) ys))"
  using assms
proof (induction ys arbitrary: p)
  case Nil
  then show ?case by simp
next
  case (Cons y ys)
  show ?case
  proof (cases "cmp y p < 0")
    case True
    then show ?thesis by simp
  next
    case False
    have "\<not> f y < f p" using False Cons(2) by simp
    then have le: "f p \<le> f y" by simp
    have "\<forall>a\<in>set (y # ys). \<forall>b\<in>set (y # ys). (cmp a b < 0) = (f a < f b)"
      using Cons(2) by simp
    then have s: "sorted (map f (y # take (run_length cmp False y ys) ys))" by (rule Cons(1))
    have "sorted (map f (p # y # take (run_length cmp False y ys) ys))"
      using s le by auto
    then show ?thesis using False by (simp add: Let_def)
  qed
qed

lemma run_descending:
  fixes f :: "'a \<Rightarrow> 'b::linorder"
  assumes "\<forall>a\<in>set (p # ys). \<forall>b\<in>set (p # ys). (cmp a b < 0) = (f a < f b)"
  shows "sorted_wrt (\<lambda>a b. f b < f a) (p # take (run_length cmp True p ys) ys)"
  using assms
proof (induction ys arbitrary: p)
  case Nil
  then show ?case by simp
next
  case (Cons y ys)
  show ?case
  proof (cases "cmp y p \<ge> 0")
    case True
    then show ?thesis by simp
  next
    case False
    have lt: "f y < f p" using False Cons(2) by simp
    have "\<forall>a\<in>set (y # ys). \<forall>b\<in>set (y # ys). (cmp a b < 0) = (f a < f b)"
      using Cons(2) by simp
    then have s: "sorted_wrt (\<lambda>a b. f b < f a) (y # take (run_length cmp True y ys) ys)"
      by (rule Cons(1))
    have "\<forall>x\<in>set (take (run_length cmp True y ys) ys). f x < f y"
      using s by simp
    then have "\<forall>x\<in>set (take (run_length cmp True y ys) ys). f x < f p"
      using lt by (meson less_trans)
    then have "sorted_wrt (\<lambda>a b. f b < f a) (p # y # take (run_length cmp True y ys) ys)"
      using s lt by simp
    then show ?thesis using False by (simp add: Let_def)
  qed
qed

lemma sort_key_sorted: "sorted (map f ys) \<Longrightarrow> sort_key f ys = ys"
  by (rule sort_key_id_if_sorted)

lemma sort_key_descending:
  assumes "sorted_wrt (\<lambda>a b. f b < f a) ys"
  shows "sort_key f ys = rev ys"
proof (rule properties_for_sort_key)
  show "mset (rev ys) = mset ys" by simp
  have "sorted_wrt (\<lambda>a b. f a < f b) (rev ys)"
    using assms by (simp add: sorted_wrt_rev)
  then have st: "sorted_wrt (<) (map f (rev ys))" by (simp add: sorted_wrt_map)
  then show "sorted (map f (rev ys))" by (simp add: strict_sorted_iff)
  have d1: "distinct (map f (rev ys))" using st by (simp add: strict_sorted_iff)
  then have d2: "distinct (map f ys)" by (simp add: rev_map[symmetric])
  fix k assume k: "k \<in> set (rev ys)"
  then have k2: "k \<in> set ys" by simp
  show "filter (\<lambda>x. f k = f x) (rev ys) = filter (\<lambda>x. f k = f x) ys"
    using filter_singleton_distinct[OF d1 k] filter_singleton_distinct[OF d2 k2] by simp
qed

lemma countAndMakeRun_sorted:
  assumes "\<forall>a\<in>set xs. \<forall>b\<in>set xs. (cmp a b < 0) = (f a < f b)" "2 \<le> length xs"
  shows "\<exists>n. n \<le> length xs \<and> fst (countAndMakeRun cmp xs) = sort_key f (take n xs) \<and>
             snd (countAndMakeRun cmp xs) = drop n xs"
proof -
  obtain x0 x1 rest where xs: "xs = x0 # x1 # rest"
    using assms(2) by (metis Suc_le_length_iff numeral_2_eq_2)
  have p: "\<forall>a\<in>set (x1 # rest). \<forall>b\<in>set (x1 # rest). (cmp a b < 0) = (f a < f b)"
    using assms(1) xs by simp
  have c: "(cmp x1 x0 < 0) = (f x1 < f x0)" using assms(1) xs by simp
  show ?thesis
  proof (cases "cmp x1 x0 < 0")
    case True
    let ?n = "2 + run_length cmp True x1 rest"
    have t: "take ?n xs = x0 # x1 # take (run_length cmp True x1 rest) rest"
      by (simp add: xs)
    have "sorted_wrt (\<lambda>a b. f b < f a) (x1 # take (run_length cmp True x1 rest) rest)"
      by (rule run_descending[OF p])
    then have "sorted_wrt (\<lambda>a b. f b < f a) (take ?n xs)"
      unfolding t using True c by (auto intro: less_trans)
    then have "sort_key f (take ?n xs) = rev (take ?n xs)" by (rule sort_key_descending)
    moreover have "countAndMakeRun cmp xs = (rev (take ?n xs), drop ?n xs)"
      using True by (simp add: countAndMakeRun_def xs Let_def)
    moreover have "?n \<le> length xs" using run_length_le[of cmp True x1 rest] by (simp add: xs)
    ultimately show ?thesis by (intro exI[of _ ?n]) simp
  next
    case False
    let ?n = "2 + run_length cmp False x1 rest"
    have t: "take ?n xs = x0 # x1 # take (run_length cmp False x1 rest) rest"
      by (simp add: xs)
    have "sorted (map f (x1 # take (run_length cmp False x1 rest) rest))"
      by (rule run_ascending[OF p])
    then have "sorted (map f (take ?n xs))"
      unfolding t using False c by auto
    then have "sort_key f (take ?n xs) = take ?n xs" by (rule sort_key_sorted)
    moreover have "countAndMakeRun cmp xs = (take ?n xs, drop ?n xs)"
      using False by (simp add: countAndMakeRun_def xs Let_def)
    moreover have "?n \<le> length xs" using run_length_le[of cmp False x1 rest] by (simp add: xs)
    ultimately show ?thesis by (intro exI[of _ ?n]) simp
  qed
qed

lemma binary_search_bounds:
  "sorted (map f run) \<Longrightarrow> \<forall>b\<in>set run. (cmp pivot b < 0) = (f pivot < f b) \<Longrightarrow>
   left \<le> right \<Longrightarrow> right \<le> length run \<Longrightarrow>
   \<forall>i<left. f (run ! i) \<le> f pivot \<Longrightarrow>
   \<forall>i. right \<le> i \<and> i < length run \<longrightarrow> f pivot < f (run ! i) \<Longrightarrow>
   binary_search cmp pivot run left right \<le> length run \<and>
   (\<forall>i<binary_search cmp pivot run left right. f (run ! i) \<le> f pivot) \<and>
   (\<forall>i. binary_search cmp pivot run left right \<le> i \<and> i < length run \<longrightarrow> f pivot < f (run ! i))"
proof (induction cmp pivot run left right rule: binary_search.induct)
  case (1 cmp pivot work left right)
  note srt = 1(3) and ord = 1(4) and lr = 1(5) and rl = 1(6) and lo = 1(7) and hi = 1(8)
  show ?case
  proof (cases "left < right")
    case False
    then have e: "binary_search cmp pivot work left right = left"
      by (simp add: binary_search.simps)
    have "left = right" using False lr by simp
    then show ?thesis unfolding e using rl lo hi by simp
  next
    case True
    define mid where "mid = left + (right - left) div 2"
    have m: "left \<le> mid" "mid < right" using True by (simp_all add: mid_def)
    have ml: "mid < length work" using m rl by simp
    have mono: "i \<le> j \<Longrightarrow> j < length work \<Longrightarrow> f (work ! i) \<le> f (work ! j)" for i j
      using srt by (simp add: sorted_iff_nth_mono)
    show ?thesis
    proof (cases "cmp pivot (work ! mid) < 0")
      case lt: True
      have e: "binary_search cmp pivot work left right = binary_search cmp pivot work left mid"
        using True lt by (subst binary_search.simps) (simp add: mid_def Let_def)
      have pm: "f pivot < f (work ! mid)" using lt ord ml by simp
      have hi2: "\<forall>i. mid \<le> i \<and> i < length work \<longrightarrow> f pivot < f (work ! i)"
        using pm mono by (meson less_le_trans)
      have ml2: "mid \<le> length work" using ml by simp
      show ?thesis
        unfolding e using 1(1)[OF True mid_def lt srt ord m(1) ml2 lo hi2] .
    next
      case ge: False
      have e: "binary_search cmp pivot work left right = binary_search cmp pivot work (mid + 1) right"
        using True ge by (subst binary_search.simps) (simp add: mid_def Let_def)
      have pm: "f (work ! mid) \<le> f pivot" using ge ord ml by (simp add: not_less)
      have lo2: "\<forall>i<mid + 1. f (work ! i) \<le> f pivot"
      proof (intro allI impI)
        fix i assume "i < mid + 1"
        then have "i \<le> mid" by simp
        then have "f (work ! i) \<le> f (work ! mid)" using mono ml by simp
        then show "f (work ! i) \<le> f pivot" using pm by simp
      qed
      have m2: "mid + 1 \<le> right" using m(2) by simp
      show ?thesis
        unfolding e using 1(2)[OF True mid_def ge srt ord m2 rl lo2 hi] .
    qed
  qed
qed

lemma binary_insert_sort_key:
  assumes "\<forall>b\<in>set ys. (cmp pivot b < 0) = (f pivot < f b)"
  shows "binary_insert cmp (sort_key f ys) pivot = sort_key f (ys @ [pivot])"
proof -
  define S where "S = sort_key f ys"
  define l where "l = binary_search cmp pivot S 0 (length S)"
  have srt: "sorted (map f S)" by (simp add: S_def)
  have ord: "\<forall>b\<in>set S. (cmp pivot b < 0) = (f pivot < f b)" using assms by (simp add: S_def)
  have b: "l \<le> length S \<and> (\<forall>i<l. f (S ! i) \<le> f pivot) \<and>
           (\<forall>i. l \<le> i \<and> i < length S \<longrightarrow> f pivot < f (S ! i))"
    unfolding l_def by (rule binary_search_bounds[of f S cmp pivot 0 "length S", OF srt ord]) auto
  have b1: "l \<le> length S" and b2: "\<And>i. i < l \<Longrightarrow> f (S ! i) \<le> f pivot"
    and b3: "\<And>i. l \<le> i \<Longrightarrow> i < length S \<Longrightarrow> f pivot < f (S ! i)"
    using b by blast+
  have lo: "\<forall>x\<in>set (take l S). f x \<le> f pivot"
  proof
    fix x assume "x \<in> set (take l S)"
    then have "\<exists>i<length (take l S). take l S ! i = x" by (simp only: in_set_conv_nth)
    then obtain i where i: "i < length (take l S)" "take l S ! i = x" by (elim exE conjE)
    have il: "i < l" using i(1) by simp
    then have "S ! i = x" using i(2) by simp
    then show "f x \<le> f pivot" using b2[OF il] by simp
  qed
  have hi: "\<forall>x\<in>set (drop l S). f pivot < f x"
  proof
    fix x assume "x \<in> set (drop l S)"
    then have "\<exists>i<length (drop l S). drop l S ! i = x" by (simp only: in_set_conv_nth)
    then obtain i where i: "i < length (drop l S)" "drop l S ! i = x" by (elim exE conjE)
    have il: "l + i < length S" using i(1) by simp
    have "S ! (l + i) = x" using i(2) b1 by simp
    then show "f pivot < f x" using b3[of "l + i", OF _ il] by simp
  qed
  have s1: "sorted (map f (take l S))"
    using sorted_wrt_take[OF srt, of l] by (simp only: take_map)
  have s2: "sorted (map f (drop l S))"
    using sorted_wrt_drop[OF srt, of l] by (simp only: drop_map)
  have eqc: "(\<lambda>x. f k = f x) = (\<lambda>x. f x = f k)" for k by auto
  have "sort_key f (ys @ [pivot]) = take l S @ [pivot] @ drop l S"
  proof (rule properties_for_sort_key)
    have "mset (take l S @ [pivot] @ drop l S) = (mset (take l S) + mset (drop l S)) + {#pivot#}"
      by simp
    also have "\<dots> = mset S + {#pivot#}" by (simp only: mset_take_drop)
    also have "\<dots> = mset (ys @ [pivot])" by (simp add: S_def)
    finally show "mset (take l S @ [pivot] @ drop l S) = mset (ys @ [pivot])" .
    have cross: "\<forall>x\<in>set (take l S). \<forall>y\<in>set (drop l S). f x \<le> f y"
      using lo hi by (meson less_imp_le order_trans)
    have hi2: "\<forall>x\<in>set (drop l S). f pivot \<le> f x" using hi by (meson less_imp_le)
    show "sorted (map f (take l S @ [pivot] @ drop l S))"
      using s1 s2 lo hi2 cross by (simp add: sorted_append)
    fix k assume "k \<in> set (take l S @ [pivot] @ drop l S)"
    have "filter (\<lambda>x. f x = f k) S = filter (\<lambda>x. f x = f k) ys"
      unfolding S_def by (rule sort_key_stable)
    then have "filter (\<lambda>x. f k = f x) ys = filter (\<lambda>x. f k = f x) S"
      by (simp only: eqc)
    also have "\<dots> = filter (\<lambda>x. f k = f x) (take l S @ drop l S)"
      by (simp only: append_take_drop_id)
    finally have st: "filter (\<lambda>x. f k = f x) ys =
        filter (\<lambda>x. f k = f x) (take l S) @ filter (\<lambda>x. f k = f x) (drop l S)"
      by (simp only: filter_append)
    show "filter (\<lambda>x. f k = f x) (take l S @ [pivot] @ drop l S) = filter (\<lambda>x. f k = f x) (ys @ [pivot])"
    proof (cases "f k = f pivot")
      case True
      have "\<forall>x\<in>set (drop l S). f k \<noteq> f x" using hi True by (metis less_irrefl)
      then have "filter (\<lambda>x. f k = f x) (drop l S) = []"
        by (simp add: filter_empty_conv)
      then show ?thesis using True st by simp
    next
      case False
      then show ?thesis using st by simp
    qed
  qed
  then show ?thesis by (simp only: binary_insert_def Let_def S_def l_def)
qed

lemma foldl_binary_insert:
  "\<forall>a\<in>set rest. \<forall>b\<in>set (pre @ rest). (cmp a b < 0) = (f a < f b) \<Longrightarrow>
   foldl (binary_insert cmp) (sort_key f pre) rest = sort_key f (pre @ rest)"
proof (induction rest arbitrary: pre)
  case Nil
  then show ?case by simp
next
  case (Cons x rest)
  have a: "\<forall>b\<in>set pre. (cmp x b < 0) = (f x < f b)" using Cons(2) by simp
  have b: "\<forall>a\<in>set rest. \<forall>b\<in>set ((pre @ [x]) @ rest). (cmp a b < 0) = (f a < f b)"
    using Cons(2) by simp
  show ?case
    using Cons(1)[OF b] binary_insert_sort_key[of pre cmp x f] a by simp
qed

lemma v8_sort_stable:
  assumes "\<forall>a\<in>set xs. \<forall>b\<in>set xs. (cmp a b < 0) = (f a < f b)"
  shows "v8_sort cmp xs = sort_key f xs"
proof (cases "length xs < 2")
  case True
  then have "xs = [] \<or> (\<exists>x. xs = [x])"
    by (cases xs) (auto simp: less_Suc_eq_0_disj)
  then have "sort_key f xs = xs" by auto
  then show ?thesis using True by (simp add: v8_sort_def)
next
  case False
  then have l: "2 \<le> length xs" by simp
  obtain n where n: "n \<le> length xs" "fst (countAndMakeRun cmp xs) = sort_key f (take n xs)"
    "snd (countAndMakeRun cmp xs) = drop n xs"
    using countAndMakeRun_sorted[OF assms l] by (elim exE conjE)
  have p: "\<forall>a\<in>set (drop n xs). \<forall>b\<in>set (take n xs @ drop n xs). (cmp a b < 0) = (f a < f b)"
    using assms by (simp add: in_set_dropD)
  have "v8_sort cmp xs = foldl (binary_insert cmp) (sort_key f (take n xs)) (drop n xs)"
    using False n by (simp add: v8_sort_def Let_def)
  also have "\<dots> = sort_key f (take n xs @ drop n xs)" by (rule foldl_binary_insert[OF p])
  finally show ?thesis by simp
qed



lemma example_engine_conforming: "conforming example_engine"
  unfolding conforming_def
proof (intro conjI allI impI)
  fix cmp xs
  show "mset (array_sort example_engine cmp xs) = mset xs"
    by (simp add: example_engine_def mset_v8_sort)
next
  fix xs :: "jskey item list"
  assume k: "same_kind (map fst xs)"
  have "\<forall>a\<in>set xs. \<forall>b\<in>set xs. (comparator example_engine a b < 0) = (fst a < fst b)"
  proof (intro ballI)
    fix a b assume "a \<in> set xs" "b \<in> set xs"
    then have "isNum (fst a) = isNum (fst b)" using k by (auto simp: same_kind_def)
    then show "(comparator example_engine a b < 0) = (fst a < fst b)"
      by (auto simp: comparator_same_kind)
  qed
  then have "v8_sort (comparator example_engine) xs = sort_key fst xs" by (rule v8_sort_stable)
  then show "array_sort example_engine (comparator example_engine) xs = sort_key fst xs"
    by (simp add: example_engine_def)
qed

subsection \<open>Instances\<close>

theorem calculateMoves_reaches_target_witness:
  "conforming example_engine \<and>
   distinct [KNum 1, KStr ''a'', KNum 3, KStr ''b'', KNum 7] \<and>
   distinct [KStr ''c'', KStr ''a'', KStr ''b'', KNum 1, KNum 8, KNum 3] \<and>
   foldl (\<lambda>items m. make m items) [KNum 1, KStr ''a'', KNum 3, KStr ''b'', KNum 7]
     (snd (calculateMoves example_engine [KNum 1, KStr ''a'', KNum 3, KStr ''b'', KNum 7]
        [KStr ''c'', KStr ''a'', KStr ''b'', KNum 1, KNum 8, KNum 3] None))
     = [KStr ''c'', KStr ''a'', KStr ''b'', KNum 1, KNum 8, KNum 3] \<and>
   fst (calculateMoves example_engine [KNum 1, KStr ''a'', KNum 3, KStr ''b'', KNum 7]
        [KStr ''c'', KStr ''a'', KStr ''b'', KNum 1, KNum 8, KNum 3] None)
     = [KStr ''c'', KStr ''a'', KStr ''b'', KNum 1, KNum 8, KNum 3]"
proof -
  have d1: "distinct [KNum 1, KStr ''a'', KNum 3, KStr ''b'', KNum 7]" by simp
  have d2: "distinct [KStr ''c'', KStr ''a'', KStr ''b'', KNum 1, KNum 8, KNum 3]" by simp
  show ?thesis
    using calculateMoves_reaches_target[OF example_engine_conforming d1 d2, of None]
      example_engine_conforming d1 d2 by blast
qed




text \<open>
  Claim C2 as stated fails: with \<open>x = 1\<close> favoured, the single move emitted for
  \<open>[1, 2, 3]\<close> to \<open>[2, 1, 3]\<close> relocates key 1 (the favoured key), not key 2.
\<close>

theorem calculateMoves_favored_key_counterexample:
  "snd (calculateMoves example_engine [KNum 1, KNum 2, KNum 3] [KNum 2, KNum 1, KNum 3]
          (Some (KNum 1))) = [Move (KNum 1) 0 1] \<and>
   map item (snd (calculateMoves example_engine [KNum 1, KNum 2, KNum 3]
          [KNum 2, KNum 1, KNum 3] (Some (KNum 1)))) \<noteq> [KNum 2]"
  by code_simp

theorem calculateMoves_favored_key_witness:
  "conforming example_engine \<and> distinct [KNum 1, KNum 2, KNum 3] \<and>
   same_kind [KNum 1, KNum 2, KNum 3] \<and> key_truthy (KNum 1) \<and>
   \<not> favored_truthy (Some (KNum 0)) \<and>
   calculateMoves example_engine [KNum 1, KNum 2, KNum 3] [KNum 2, KNum 1, KNum 3] (Some (KNum 1)) =
     ([KNum 2, KNum 1, KNum 3], [Move (KNum 1) 0 1]) \<and>
   calculateMoves example_engine [KNum 1, KNum 2, KNum 3] [KNum 2, KNum 1, KNum 3] (Some (KNum 0)) =
     ([KNum 2, KNum 1, KNum 3], [Move (KNum 2) 1 0]) \<and>
   fst (setPhase example_engine [KNum 1, KNum 2, KNum 3] [KNum 2, KNum 1, KNum 3]) \<noteq>
     [KNum 2, KNum 1, KNum 3] \<and>
   snd (calculateIndexChanges
          (fst (setPhase example_engine [KNum 1, KNum 2, KNum 3] [KNum 2, KNum 1, KNum 3]))
          [KNum 2, KNum 1, KNum 3] False) = [Move (KNum 2) 1 0] \<and>
   item (Move (KNum 2) 1 0) \<noteq> KNum 1 \<and>
   snd (calculateMoves example_engine [KNum 1, KNum 2, KNum 3] [KNum 2, KNum 1, KNum 3]
          (Some (KNum 1))) =
     snd (setPhase example_engine [KNum 1, KNum 2, KNum 3] [KNum 2, KNum 1, KNum 3]) @
     (let alt = snd (calculateIndexChanges
                       (fst (setPhase example_engine [KNum 1, KNum 2, KNum 3] [KNum 2, KNum 1, KNum 3]))
                       [KNum 2, KNum 1, KNum 3] True)
      in if length alt \<le> 1 then alt else [Move (KNum 2) 1 0])"
proof -
  have h0: "conforming example_engine \<and> distinct [KNum 1, KNum 2, KNum 3] \<and>
            same_kind [KNum 1, KNum 2, KNum 3]"
    by (simp add: example_engine_conforming same_kind_def)
  have h1: "key_truthy (KNum 1)" by simp
  have h2: "\<not> favored_truthy (Some (KNum 0))" by (simp add: favored_truthy_def)
  have h3: "fst (setPhase example_engine [KNum 1, KNum 2, KNum 3] [KNum 2, KNum 1, KNum 3]) \<noteq>
     [KNum 2, KNum 1, KNum 3]"
    by code_simp
  have h4: "snd (calculateIndexChanges
          (fst (setPhase example_engine [KNum 1, KNum 2, KNum 3] [KNum 2, KNum 1, KNum 3]))
          [KNum 2, KNum 1, KNum 3] False) = [Move (KNum 2) 1 0]"
    by code_simp
  have h5: "item (Move (KNum 2) 1 0) \<noteq> KNum 1" by simp
  show ?thesis
    using calculateMoves_favored_key[of example_engine "KNum 1" "KNum 2" "KNum 3" "Some (KNum 0)"
        "[KNum 1, KNum 2, KNum 3]" "[KNum 2, KNum 1, KNum 3]" "Move (KNum 2) 1 0" "KNum 1"]
      h0 h1 h2 h3 h4 h5 by blast
qed

section \<open>Verification of the child-slot operations\<close>


lemma and_then_None [simp]: "and_then (None, s) f = f s"
  by (simp add: and_then_def)

lemma and_then_Some [simp]: "and_then (Some e, s) f = (Some e, s)"
  by (simp add: and_then_def)

lemma objects_update_object:
  "objects (update_object r g s) r' = (if r' = r then map_option g (objects s r) else objects s r')"
  by (simp add: update_object_def)

lemma next_ref_update_object [simp]: "next_ref (update_object r g s) = next_ref s"
  by (simp add: update_object_def)

lemma console_update_object [simp]: "console (update_object r g s) = console s"
  by (simp add: update_object_def)

lemma slots_ok_update:
  assumes "slots_ok s"
    and "\<And>ob. objects s r = Some ob \<Longrightarrow> is_component (g ob) \<Longrightarrow> slot_ok (g ob)"
  shows "slots_ok (update_object r g s)"
  using assms unfolding slots_ok_def objects_update_object
  by (auto split: if_splits)

lemma fresh_update [simp]: "fresh_store (update_object r g s) = fresh_store s"
  unfolding fresh_store_def objects_update_object by auto

lemma slots_ok_parent:
  "slots_ok s \<Longrightarrow> slots_ok (update_object r (\<lambda>ob. ob\<lparr>parentNode := v\<rparr>) s)"
  by (rule slots_ok_update) (auto simp: slots_ok_def is_component_def slot_ok_def)

lemma slots_ok_set_parentNode:
  "slots_ok s \<Longrightarrow> slots_ok (snd (set_parentNode t v s))"
  by (auto simp: set_parentNode_def slots_ok_parent split: option.splits)

lemma fresh_set_parentNode:
  "fresh_store s \<Longrightarrow> fresh_store (snd (set_parentNode t v s))"
  by (auto simp: set_parentNode_def split: option.splits)

lemma slots_ok_console [simp]: "slots_ok (s\<lparr>console := c\<rparr>) = slots_ok s"
  by (simp add: slots_ok_def)

lemma fresh_console [simp]: "fresh_store (s\<lparr>console := c\<rparr>) = fresh_store s"
  by (simp add: fresh_store_def)

lemma get_field_parent_child [simp]:
  "get_field child (update_object r (\<lambda>ob. ob\<lparr>parentNode := v\<rparr>) s) t = get_field child s t"
  by (auto simp: get_field_def objects_update_object split: option.splits)

lemma get_field_parent_comment [simp]:
  "get_field comment (update_object r (\<lambda>ob. ob\<lparr>parentNode := v\<rparr>) s) t = get_field comment s t"
  by (auto simp: get_field_def objects_update_object split: option.splits)

lemma slots_ok_new_Comment:
  assumes "slots_ok s"
  shows "slots_ok (snd (new_Comment p s))"
  using assms unfolding slots_ok_def new_Comment_def
  by (auto simp: is_component_def split: if_splits)

lemma fresh_new_Comment:
  assumes "fresh_store s"
  shows "fresh_store (snd (new_Comment p s))"
  using assms unfolding fresh_store_def new_Comment_def by auto

lemma slots_okI:
  assumes "slots_ok_except this s"
    and "\<And>ob. objects s this = Some ob \<Longrightarrow> is_component ob \<Longrightarrow> slot_ok ob"
  shows "slots_ok s"
  using assms unfolding slots_ok_def slots_ok_except_def by metis

lemma except_of_ok: "slots_ok s \<Longrightarrow> slots_ok_except this s"
  unfolding slots_ok_def slots_ok_except_def by blast

lemma except_update_this: "slots_ok_except this s \<Longrightarrow> slots_ok_except this (update_object this g s)"
  unfolding slots_ok_except_def objects_update_object by simp

lemma except_update_parent:
  "slots_ok_except this s \<Longrightarrow> slots_ok_except this (update_object r (\<lambda>ob. ob\<lparr>parentNode := v\<rparr>) s)"
  unfolding slots_ok_except_def objects_update_object
  by (auto simp: is_component_def slot_ok_def split: if_splits)

lemma except_new_Comment:
  "slots_ok_except this s \<Longrightarrow> slots_ok_except this (snd (new_Comment p s))"
  unfolding slots_ok_except_def new_Comment_def
  by (auto simp: is_component_def split: if_splits)

lemma except_console [simp]: "slots_ok_except this (s\<lparr>console := c\<rparr>) = slots_ok_except this s"
  by (simp add: slots_ok_except_def)

lemma except_set_parentNode:
  "slots_ok_except this s \<Longrightarrow> slots_ok_except this (snd (set_parentNode t v s))"
  by (auto simp: set_parentNode_def except_update_parent split: option.splits)

lemma get_field_update:
  "get_field f (update_object r g s) t =
     (if t = r then (case objects s r of None \<Rightarrow> None | Some ob \<Rightarrow> f (g ob)) else get_field f s t)"
  by (auto simp: get_field_def objects_update_object split: option.splits)

lemma appendChild_except:
  "slots_ok_except this s \<Longrightarrow> slots_ok_except this (snd (appendChild this c s))"
  unfolding appendChild_def set_child_def set_comment_def and_then_def
  by (auto simp: except_update_this except_set_parentNode split: option.splits)

lemma appendChild_this:
  assumes "objects (snd (appendChild this c s)) this = Some ob'" "objects s this = Some ob"
    "slot_ok ob"
  shows "slot_ok ob'"
  using assms unfolding appendChild_def set_child_def set_comment_def set_parentNode_def
  by (auto simp: get_field_update objects_update_object slot_ok_def split: option.splits if_splits)

lemma is_component_parent [simp]: "is_component (ob\<lparr>parentNode := v\<rparr>) = is_component ob"
  by (simp add: is_component_def)

lemma is_component_child [simp]: "is_component (ob\<lparr>child := v\<rparr>) = is_component ob"
  by (simp add: is_component_def)

lemma is_component_comment [simp]: "is_component (ob\<lparr>comment := v\<rparr>) = is_component ob"
  by (simp add: is_component_def)

lemma assert_cases:
  assumes "assert = console_assert \<or> assert = throwing_assert"
  shows "(\<exists>s1. assert b m s = (None, s1) \<and> objects s1 = objects s \<and> next_ref s1 = next_ref s)
       \<or> (\<exists>e. assert b m s = (Some e, s))"
  using assms by (cases b) (auto simp: console_assert_def throwing_assert_def)

lemma get_field_objects_cong:
  "objects s' = objects s \<Longrightarrow> get_field f s' r = get_field f s r"
  by (simp add: get_field_def)

lemma except_objects_cong:
  "objects s' = objects s \<Longrightarrow> slots_ok_except this s' = slots_ok_except this s"
  by (simp add: slots_ok_except_def)

lemma removeChild_except:
  assumes "slots_ok_except this s" "assert = console_assert \<or> assert = throwing_assert"
  shows "slots_ok_except this (snd (removeChild assert this c s))"
proof -
  consider (go) s1 where "assert (get_field child s this = Some c) ''Specified node is not a child of this node'' s = (None, s1)"
    "objects s1 = objects s"
  | (stop) e where "assert (get_field child s this = Some c) ''Specified node is not a child of this node'' s = (Some e, s)"
    using assert_cases[OF assms(2), of "get_field child s this = Some c"
      "''Specified node is not a child of this node''" s] by blast
  then show ?thesis
  proof cases
  case s1: go
  have e1: "slots_ok_except this s1" using assms(1) except_objects_cong[OF s1(2)] by simp
  show ?thesis
    unfolding removeChild_def s1(1) and_then_None set_child_def set_comment_def createComment_def Let_def
    using e1
    by (auto simp: and_then_def except_update_this except_set_parentNode except_new_Comment
        split: option.splits)
next
  case (stop e)
  then show ?thesis using assms(1) by (simp add: removeChild_def)
qed
qed

lemma removeChild_this:
  assumes "objects (snd (removeChild assert this c s)) this = Some ob'" "objects s this = Some ob"
    "slot_ok ob" "fresh_store s" "assert = console_assert \<or> assert = throwing_assert"
  shows "slot_ok ob'"
proof -
  have nr: "next_ref s \<noteq> this" using assms(2,4) by (auto simp: fresh_store_def)
  show ?thesis
    using assms(1,2,3,5) nr
    unfolding removeChild_def set_child_def set_comment_def set_parentNode_def createComment_def
      new_Comment_def Let_def console_assert_def throwing_assert_def
    by (auto simp: get_field_update objects_update_object slot_ok_def update_object_def get_field_def
        split: option.splits if_splits)
qed

lemma replaceChild_except:
  assumes "slots_ok_except this s" "assert = console_assert \<or> assert = throwing_assert"
  shows "slots_ok_except this (snd (replaceChild assert this c n s))"
proof -
  consider (go) s1 where "assert (get_field child s this = Some c) ''Specified node is not a child of this node'' s = (None, s1)"
    "objects s1 = objects s"
  | (stop) e where "assert (get_field child s this = Some c) ''Specified node is not a child of this node'' s = (Some e, s)"
    using assert_cases[OF assms(2), of "get_field child s this = Some c"
      "''Specified node is not a child of this node''" s] by blast
  then show ?thesis
  proof cases
  case s1: go
  have e1: "slots_ok_except this s1" using assms(1) except_objects_cong[OF s1(2)] by simp
  show ?thesis
    unfolding replaceChild_def s1(1) and_then_None set_child_def
    using e1
    by (auto simp: and_then_def except_update_this except_set_parentNode split: option.splits)
next
  case (stop e)
  then show ?thesis using assms(1) by (simp add: replaceChild_def)
qed
qed

lemma replaceChild_this:
  assumes "objects (snd (replaceChild assert this c n s)) this = Some ob'" "objects s this = Some ob"
    "slot_ok ob" "assert = console_assert \<or> assert = throwing_assert"
  shows "slot_ok ob'"
  using assms
  unfolding replaceChild_def set_child_def set_parentNode_def console_assert_def throwing_assert_def
  by (auto simp: get_field_update objects_update_object slot_ok_def update_object_def get_field_def
      split: option.splits if_splits)

lemma new_Component_object:
  "objects (snd (new_Component type parent s)) =
     (objects s)(next_ref s \<mapsto> \<lparr>nodeType = type, parentNode = parent, child = None,
                                  comment = Some (Suc (next_ref s)), children = None\<rparr>,
                 Suc (next_ref s) \<mapsto> \<lparr>nodeType = CommentType, parentNode = Some (next_ref s),
                                  child = None, comment = None, children = None\<rparr>)"
  by (auto simp: new_Component_def Let_def createComment_def new_Comment_def set_comment_def
      set_child_def update_object_def fun_eq_iff)

lemma new_Component_next: "next_ref (snd (new_Component type parent s)) = Suc (Suc (next_ref s))"
  by (simp add: new_Component_def Let_def createComment_def new_Comment_def set_comment_def
      set_child_def update_object_def)

lemma new_Component_slots:
  assumes "slots_ok s"
  shows "slots_ok (snd (new_Component type parent s))"
  using assms unfolding slots_ok_def new_Component_object
  by (auto simp: slot_ok_def is_component_def split: if_splits)

lemma new_Component_fresh:
  assumes "fresh_store s"
  shows "fresh_store (snd (new_Component type parent s))"
  using assms unfolding fresh_store_def new_Component_object new_Component_next by auto

lemma fresh_set_child [simp]: "fresh_store (snd (set_child t v s)) = fresh_store s"
  by (simp add: set_child_def)

lemma fresh_set_comment [simp]: "fresh_store (snd (set_comment t v s)) = fresh_store s"
  by (simp add: set_comment_def)

lemma fresh_objects_cong:
  "objects s' = objects s \<Longrightarrow> next_ref s' = next_ref s \<Longrightarrow> fresh_store s' = fresh_store s"
  by (simp add: fresh_store_def)

lemma appendChild_fresh:
  assumes "fresh_store s"
  shows "fresh_store (snd (appendChild this c s))"
  using assms unfolding appendChild_def and_then_def set_child_def set_comment_def
  by (auto simp: fresh_set_parentNode split: option.splits)

lemma removeChild_fresh:
  assumes "fresh_store s" "assert = console_assert \<or> assert = throwing_assert"
  shows "fresh_store (snd (removeChild assert this c s))"
proof -
  consider (go) s1 where "assert (get_field child s this = Some c) ''Specified node is not a child of this node'' s = (None, s1)"
    "objects s1 = objects s" "next_ref s1 = next_ref s"
  | (stop) e where "assert (get_field child s this = Some c) ''Specified node is not a child of this node'' s = (Some e, s)"
    using assert_cases[OF assms(2), of "get_field child s this = Some c"
      "''Specified node is not a child of this node''" s] by blast
  then show ?thesis
  proof cases
    case s1: go
    have f1: "fresh_store s1" using assms(1) fresh_objects_cong[OF s1(2,3)] by simp
    show ?thesis
      unfolding removeChild_def s1(1) and_then_None set_child_def set_comment_def createComment_def Let_def
      using f1
      by (auto simp: and_then_def fresh_set_parentNode fresh_new_Comment split: option.splits)
  next
    case (stop e)
    then show ?thesis using assms(1) by (simp add: removeChild_def)
  qed
qed

lemma replaceChild_fresh:
  assumes "fresh_store s" "assert = console_assert \<or> assert = throwing_assert"
  shows "fresh_store (snd (replaceChild assert this c n s))"
proof -
  consider (go) s1 where "assert (get_field child s this = Some c) ''Specified node is not a child of this node'' s = (None, s1)"
    "objects s1 = objects s" "next_ref s1 = next_ref s"
  | (stop) e where "assert (get_field child s this = Some c) ''Specified node is not a child of this node'' s = (Some e, s)"
    using assert_cases[OF assms(2), of "get_field child s this = Some c"
      "''Specified node is not a child of this node''" s] by blast
  then show ?thesis
  proof cases
    case s1: go
    have f1: "fresh_store s1" using assms(1) fresh_objects_cong[OF s1(2,3)] by simp
    show ?thesis
      unfolding replaceChild_def s1(1) and_then_None set_child_def
      using f1
      by (auto simp: and_then_def fresh_set_parentNode split: option.splits)
  next
    case (stop e)
    then show ?thesis using assms(1) by (simp add: replaceChild_def)
  qed
qed

lemma slots_from_parts:
  assumes "slots_ok s" "slots_ok_except this s'"
    and "\<And>ob ob'. objects s this = Some ob \<Longrightarrow> objects s' this = Some ob' \<Longrightarrow> slot_ok ob \<Longrightarrow> slot_ok ob'"
    and "objects s this = None \<Longrightarrow> objects s' this = None"
    and "\<And>ob ob'. objects s this = Some ob \<Longrightarrow> objects s' this = Some ob' \<Longrightarrow> is_component ob' \<Longrightarrow> is_component ob"
  shows "slots_ok s'"
proof (rule slots_okI[OF assms(2)])
  fix ob' assume a: "objects s' this = Some ob'" "is_component ob'"
  then obtain ob where ob: "objects s this = Some ob" using assms(4) by (cases "objects s this") auto
  have "is_component ob" using assms(5)[OF ob a(1) a(2)] .
  then have "slot_ok ob" using assms(1) ob by (auto simp: slots_ok_def)
  then show "slot_ok ob'" using assms(3)[OF ob a(1)] by simp
qed

lemmas op_defs = set_child_def set_comment_def set_parentNode_def createComment_def
  new_Comment_def Let_def console_assert_def throwing_assert_def

lemma appendChild_none:
  "objects s this = None \<Longrightarrow> objects (snd (appendChild this c s)) this = None"
  unfolding appendChild_def op_defs
  by (auto simp: get_field_update objects_update_object update_object_def get_field_def
      split: option.splits if_splits)

lemma appendChild_type:
  "objects s this = Some ob \<Longrightarrow> objects (snd (appendChild this c s)) this = Some ob'
      \<Longrightarrow> is_component ob' \<Longrightarrow> is_component ob"
  unfolding appendChild_def op_defs is_component_def
  by (auto simp: get_field_update objects_update_object update_object_def get_field_def
      split: option.splits if_splits)

lemma fresh_not_this: "fresh_store s \<Longrightarrow> objects s this = Some ob \<Longrightarrow> next_ref s \<noteq> this"
  by (auto simp: fresh_store_def)

lemma removeChild_none:
  assumes "assert = console_assert \<or> assert = throwing_assert" "objects s this = None"
  shows "objects (snd (removeChild assert this c s)) this = None"
  using assms unfolding removeChild_def op_defs
  by (auto simp: get_field_update objects_update_object update_object_def get_field_def
      split: option.splits if_splits)

lemma removeChild_type:
  assumes "fresh_store s" "assert = console_assert \<or> assert = throwing_assert"
    "objects s this = Some ob" "objects (snd (removeChild assert this c s)) this = Some ob'"
    "is_component ob'"
  shows "is_component ob"
  using assms(2-) fresh_not_this[OF assms(1,3)] unfolding removeChild_def op_defs is_component_def
  by (auto simp: get_field_update objects_update_object update_object_def get_field_def
      split: option.splits if_splits)

lemma replaceChild_none:
  assumes "assert = console_assert \<or> assert = throwing_assert" "objects s this = None"
  shows "objects (snd (replaceChild assert this c n s)) this = None"
  using assms unfolding replaceChild_def op_defs
  by (auto simp: get_field_update objects_update_object update_object_def get_field_def
      split: option.splits if_splits)

lemma replaceChild_type:
  assumes "assert = console_assert \<or> assert = throwing_assert"
    "objects s this = Some ob" "objects (snd (replaceChild assert this c n s)) this = Some ob'"
    "is_component ob'"
  shows "is_component ob"
  using assms unfolding replaceChild_def op_defs is_component_def
  by (auto simp: get_field_update objects_update_object update_object_def get_field_def
      split: option.splits if_splits)

lemma appendChild_slots:
  assumes "slots_ok s"
  shows "slots_ok (snd (appendChild this c s))"
proof (rule slots_from_parts[OF assms appendChild_except[OF except_of_ok[OF assms]]])
  fix ob ob'
  assume a: "objects s this = Some ob" "objects (snd (appendChild this c s)) this = Some ob'"
  show "slot_ok ob \<Longrightarrow> slot_ok ob'" by (rule appendChild_this[OF a(2) a(1)])
  show "is_component ob' \<Longrightarrow> is_component ob" by (rule appendChild_type[OF a])
next
  show "objects s this = None \<Longrightarrow> objects (snd (appendChild this c s)) this = None"
    by (rule appendChild_none)
qed

lemma removeChild_slots:
  assumes "slots_ok s" "fresh_store s" "assert = console_assert \<or> assert = throwing_assert"
  shows "slots_ok (snd (removeChild assert this c s))"
proof (rule slots_from_parts[OF assms(1) removeChild_except[OF except_of_ok[OF assms(1)] assms(3)]])
  fix ob ob'
  assume a: "objects s this = Some ob" "objects (snd (removeChild assert this c s)) this = Some ob'"
  show "slot_ok ob \<Longrightarrow> slot_ok ob'" by (rule removeChild_this[OF a(2) a(1) _ assms(2,3)])
  show "is_component ob' \<Longrightarrow> is_component ob" by (rule removeChild_type[OF assms(2,3) a])
next
  show "objects s this = None \<Longrightarrow> objects (snd (removeChild assert this c s)) this = None"
    by (rule removeChild_none[OF assms(3)])
qed

lemma replaceChild_slots:
  assumes "slots_ok s" "assert = console_assert \<or> assert = throwing_assert"
  shows "slots_ok (snd (replaceChild assert this c n s))"
proof (rule slots_from_parts[OF assms(1) replaceChild_except[OF except_of_ok[OF assms(1)] assms(2)]])
  fix ob ob'
  assume a: "objects s this = Some ob" "objects (snd (replaceChild assert this c n s)) this = Some ob'"
  show "slot_ok ob \<Longrightarrow> slot_ok ob'" by (rule replaceChild_this[OF a(2) a(1) _ assms(2)])
  show "is_component ob' \<Longrightarrow> is_component ob" by (rule replaceChild_type[OF assms(2) a])
next
  show "objects s this = None \<Longrightarrow> objects (snd (replaceChild assert this c n s)) this = None"
    by (rule replaceChild_none[OF assms(2)])
qed

lemma appendChild_post:
  assumes "fst (appendChild this c s) = None"
  shows "get_field child (snd (appendChild this c s)) this = Some c \<and>
         get_field comment (snd (appendChild this c s)) this = None"
  using assms unfolding appendChild_def op_defs
  by (auto simp: get_field_update objects_update_object update_object_def get_field_def and_then_def
      split: option.splits if_splits)

lemma removeChild_post:
  assumes "fst (removeChild assert this c s) = None" "fresh_store s"
    "assert = console_assert \<or> assert = throwing_assert"
  shows "get_field child (snd (removeChild assert this c s)) this = None \<and>
         get_field comment (snd (removeChild assert this c s)) this = Some (next_ref s)"
proof -
  consider (go) s1 where "assert (get_field child s this = Some c) ''Specified node is not a child of this node'' s = (None, s1)"
    "objects s1 = objects s" "next_ref s1 = next_ref s"
  | (stop) e where "assert (get_field child s this = Some c) ''Specified node is not a child of this node'' s = (Some e, s)"
    using assert_cases[OF assms(3), of "get_field child s this = Some c"
      "''Specified node is not a child of this node''" s] by blast
  then show ?thesis
  proof cases
    case s1: go
    have r: "removeChild assert this c s =
       and_then (set_parentNode (get_field child s1 this) None s1) (\<lambda>s.
       and_then (set_child this None s) (\<lambda>s.
       (let c = createComment this s in set_comment this (Some (fst c)) (snd c))))"
      by (simp add: removeChild_def s1(1))
    have gc: "get_field child s1 this = get_field child s this"
      by (rule get_field_objects_cong[OF s1(2)])
    show ?thesis
    proof (cases "get_field child s this")
      case None
      then have "fst (removeChild assert this c s) = Some TypeError"
        by (simp add: r gc set_parentNode_def)
      then show ?thesis using assms(1) by simp
    next
      case (Some k)
      then obtain ob where ob: "objects s this = Some ob"
        by (auto simp: get_field_def split: option.splits)
      have nr: "next_ref s \<noteq> this" by (rule fresh_not_this[OF assms(2) ob])
      define s2 where "s2 = update_object this (\<lambda>ob. ob\<lparr>child := None\<rparr>)
                              (update_object k (\<lambda>ob. ob\<lparr>parentNode := None\<rparr>) s1)"
      have o2: "objects s2 this \<noteq> None" "next_ref s2 = next_ref s"
        using ob s1(2,3) by (auto simp: s2_def objects_update_object)
      have c2: "get_field child s2 this = None"
        using ob s1(2) by (auto simp: s2_def get_field_update objects_update_object split: option.splits)
      have r2: "removeChild assert this c s =
          set_comment this (Some (next_ref s2)) (snd (new_Comment (Some this) s2))"
        by (simp add: r gc Some set_parentNode_def set_child_def s2_def createComment_def Let_def
            new_Comment_def)
      have "get_field child (snd (removeChild assert this c s)) this = None"
        using c2 o2 nr unfolding r2 set_comment_def new_Comment_def
        by (auto simp: get_field_def update_object_def split: option.splits)
      moreover have "get_field comment (snd (removeChild assert this c s)) this = Some (next_ref s)"
        using o2 nr unfolding r2 set_comment_def new_Comment_def
        by (auto simp: get_field_def update_object_def split: option.splits)
      ultimately show ?thesis by simp
    qed
  next
    case (stop e)
    then have "fst (removeChild assert this c s) = Some e" by (simp add: removeChild_def)
    then show ?thesis using assms(1) by simp
  qed
qed

text \<open>
  Claim C9. In a store where every component and root object has exactly one of \<open>child\<close>
  and \<open>comment\<close> set, the constructor and each of \<open>appendChild\<close>, \<open>removeChild\<close> and
  \<open>replaceChild\<close> (called with node objects, under either assertion function) leave a store
  with the same property, whether they return or throw. An \<open>appendChild\<close> that returns has
  set the child and cleared the comment; a \<open>removeChild\<close> that returns has cleared the child
  and installed a fresh comment.
\<close>

theorem child_slot_invariant:
  assumes "slots_ok s" "fresh_store s" "assert = console_assert \<or> assert = throwing_assert"
  shows "slots_ok (snd (new_Component type parent s)) \<and>
         fresh_store (snd (new_Component type parent s)) \<and>
         slots_ok (snd (appendChild this c s)) \<and>
         fresh_store (snd (appendChild this c s)) \<and>
         slots_ok (snd (removeChild assert this' c' s)) \<and>
         fresh_store (snd (removeChild assert this' c' s)) \<and>
         slots_ok (snd (replaceChild assert this' c' n s)) \<and>
         fresh_store (snd (replaceChild assert this' c' n s)) \<and>
         (fst (appendChild this c s) = None \<longrightarrow>
            get_field child (snd (appendChild this c s)) this = Some c \<and>
            get_field comment (snd (appendChild this c s)) this = None) \<and>
         (fst (removeChild assert this' c' s) = None \<longrightarrow>
            get_field child (snd (removeChild assert this' c' s)) this' = None \<and>
            get_field comment (snd (removeChild assert this' c' s)) this' = Some (next_ref s))"
proof (intro conjI impI)
  show "slots_ok (snd (new_Component type parent s))" by (rule new_Component_slots[OF assms(1)])
  show "fresh_store (snd (new_Component type parent s))" by (rule new_Component_fresh[OF assms(2)])
  show "slots_ok (snd (appendChild this c s))" by (rule appendChild_slots[OF assms(1)])
  show "fresh_store (snd (appendChild this c s))" by (rule appendChild_fresh[OF assms(2)])
  show "slots_ok (snd (removeChild assert this' c' s))" by (rule removeChild_slots[OF assms])
  show "fresh_store (snd (removeChild assert this' c' s))" by (rule removeChild_fresh[OF assms(2,3)])
  show "slots_ok (snd (replaceChild assert this' c' n s))" by (rule replaceChild_slots[OF assms(1,3)])
  show "fresh_store (snd (replaceChild assert this' c' n s))" by (rule replaceChild_fresh[OF assms(2,3)])
next
  assume a: "fst (appendChild this c s) = None"
  show "get_field child (snd (appendChild this c s)) this = Some c"
    using appendChild_post[OF a] by simp
  show "get_field comment (snd (appendChild this c s)) this = None"
    using appendChild_post[OF a] by simp
next
  assume r: "fst (removeChild assert this' c' s) = None"
  show "get_field child (snd (removeChild assert this' c' s)) this' = None"
    using removeChild_post[OF r assms(2,3)] by simp
  show "get_field comment (snd (removeChild assert this' c' s)) this' = Some (next_ref s)"
    using removeChild_post[OF r assms(2,3)] by simp
qed

lemma example_slots_ok: "slots_ok example_store"
  by (auto simp: slots_ok_def example_store_def slot_ok_def is_component_def split: if_splits)

lemma example_fresh: "fresh_store example_store"
  by (auto simp: fresh_store_def example_store_def)

lemma example_fields:
  "get_field child example_store 0 = Some 1"
  "get_field comment example_store 3 = Some 4"
  "get_field children example_store 1 = Some [2, 3]"
  "next_ref example_store = 6"
  by (simp_all add: get_field_def example_store_def)

theorem child_slot_invariant_witness:
  "slots_ok example_store \<and> fresh_store example_store \<and>
   (Toolkit_assert = console_assert \<or> Toolkit_assert = throwing_assert) \<and>
   fst (appendChild 3 5 example_store) = None \<and>
   fst (removeChild Toolkit_assert 0 1 example_store) = None \<and>
   slots_ok (snd (new_Component ComponentType None example_store)) \<and>
   fresh_store (snd (new_Component ComponentType None example_store)) \<and>
   slots_ok (snd (appendChild 3 5 example_store)) \<and>
   fresh_store (snd (appendChild 3 5 example_store)) \<and>
   slots_ok (snd (removeChild Toolkit_assert 0 1 example_store)) \<and>
   fresh_store (snd (removeChild Toolkit_assert 0 1 example_store)) \<and>
   slots_ok (snd (replaceChild Toolkit_assert 0 1 5 example_store)) \<and>
   fresh_store (snd (replaceChild Toolkit_assert 0 1 5 example_store)) \<and>
   get_field child (snd (appendChild 3 5 example_store)) 3 = Some 5 \<and>
   get_field comment (snd (appendChild 3 5 example_store)) 3 = None \<and>
   get_field child (snd (removeChild Toolkit_assert 0 1 example_store)) 0 = None \<and>
   get_field comment (snd (removeChild Toolkit_assert 0 1 example_store)) 0 =
     Some (next_ref example_store)"
proof -
  have a: "Toolkit_assert = console_assert \<or> Toolkit_assert = throwing_assert"
    by (simp add: Toolkit_assert_def)
  have b: "fst (appendChild 3 5 example_store) = None"
    by (simp add: appendChild_def example_store_def op_defs get_field_def update_object_def)
  have c: "fst (removeChild Toolkit_assert 0 1 example_store) = None"
    by (simp add: removeChild_def Toolkit_assert_def example_store_def op_defs get_field_def
        update_object_def)
  show ?thesis
    using child_slot_invariant[OF example_slots_ok example_fresh a, of ComponentType None 3 5 0 1 5]
      example_slots_ok example_fresh a b c by blast
qed

lemma indexOf_absent: "c \<notin> set cs \<Longrightarrow> indexOf cs c = -1"
  by (induction cs) (auto simp: Let_def)

lemma get_field_console [simp]: "get_field f (s\<lparr>console := c\<rparr>) r = get_field f s r"
  by (simp add: get_field_def)

lemma component_assert_throws:
  assumes "get_field child s this \<noteq> Some c"
  shows "removeChild throwing_assert this c s =
           (Some (Error ''Specified node is not a child of this node''), s)"
    and "replaceChild throwing_assert this c n s =
           (Some (Error ''Specified node is not a child of this node''), s)"
  using assms by (simp_all add: removeChild_def replaceChild_def throwing_assert_def)

lemma component_assert_reports:
  assumes "get_field child s this \<noteq> Some c"
  shows "removeChild Toolkit_assert this c s =
           removeChild no_assert this c
             (s\<lparr>console := console s @ [''Specified node is not a child of this node'']\<rparr>)"
    and "replaceChild Toolkit_assert this c n s =
           replaceChild no_assert this c n
             (s\<lparr>console := console s @ [''Specified node is not a child of this node'']\<rparr>)"
  using assms
  by (simp_all add: removeChild_def replaceChild_def Toolkit_assert_def console_assert_def
      no_assert_def)

lemma element_assert_throws:
  assumes "get_field children s el = Some cs" "c \<notin> set cs"
  shows "element_removeChild d throwing_assert el c s =
           (Some (Error ''Specified node is not a child of this element''), s)"
    and "element_replaceChild d throwing_assert el c n s =
           (Some (Error ''Specified node is not a child of this element''), s)"
  using assms indexOf_absent[OF assms(2)]
  by (simp_all add: element_removeChild_def element_replaceChild_def throwing_assert_def)

lemma element_assert_reports:
  assumes "get_field children s el = Some cs" "c \<notin> set cs"
  shows "element_removeChild d Toolkit_assert el c s =
           element_removeChild d no_assert el c
             (s\<lparr>console := console s @ [''Specified node is not a child of this element'']\<rparr>)"
    and "element_replaceChild d Toolkit_assert el c n s =
           element_replaceChild d no_assert el c n
             (s\<lparr>console := console s @ [''Specified node is not a child of this element'']\<rparr>)"
  using assms indexOf_absent[OF assms(2)]
  by (simp_all add: element_removeChild_def element_replaceChild_def Toolkit_assert_def
      console_assert_def no_assert_def)

lemma element_without_children:
  assumes "get_field children s el = None"
  shows "element_removeChild d assert el c s = (Some TypeError, s)"
    and "element_replaceChild d assert el c n s = (Some TypeError, s)"
  using assms by (simp_all add: element_removeChild_def element_replaceChild_def)

text \<open>
  Claim C8, as the code has it. A \<open>removeChild\<close> or \<open>replaceChild\<close> of a component, root or
  element called with a node that is not the occupying child evaluates a failing
  \<open>opr.Toolkit.assert\<close>; an element without a list of children throws a \<open>TypeError\<close> before
  it gets there. When the assertion function throws (the one the test setup installs) the
  failure is fatal: the operation aborts with that error and the store is untouched. With
  the default, \<open>console.assert\<close>, the failure is reported on the console and the operation
  then runs as it would without the assertion.
\<close>

theorem failed_assertion_behaviour:
  "(get_field child s this \<noteq> Some c \<longrightarrow>
      removeChild throwing_assert this c s =
        (Some (Error ''Specified node is not a child of this node''), s) \<and>
      replaceChild throwing_assert this c n s =
        (Some (Error ''Specified node is not a child of this node''), s) \<and>
      removeChild Toolkit_assert this c s =
        removeChild no_assert this c
          (s\<lparr>console := console s @ [''Specified node is not a child of this node'']\<rparr>) \<and>
      replaceChild Toolkit_assert this c n s =
        replaceChild no_assert this c n
          (s\<lparr>console := console s @ [''Specified node is not a child of this node'']\<rparr>)) \<and>
   (get_field children s el = Some cs \<and> c \<notin> set cs \<longrightarrow>
      element_removeChild d throwing_assert el c s =
        (Some (Error ''Specified node is not a child of this element''), s) \<and>
      element_replaceChild d throwing_assert el c n s =
        (Some (Error ''Specified node is not a child of this element''), s) \<and>
      element_removeChild d Toolkit_assert el c s =
        element_removeChild d no_assert el c
          (s\<lparr>console := console s @ [''Specified node is not a child of this element'']\<rparr>) \<and>
      element_replaceChild d Toolkit_assert el c n s =
        element_replaceChild d no_assert el c n
          (s\<lparr>console := console s @ [''Specified node is not a child of this element'']\<rparr>)) \<and>
   (get_field children s el' = None \<longrightarrow>
      element_removeChild d assert el' c s = (Some TypeError, s) \<and>
      element_replaceChild d assert el' c n s = (Some TypeError, s))"
proof (intro conjI impI)
  assume a: "get_field child s this \<noteq> Some c"
  show "removeChild throwing_assert this c s =
        (Some (Error ''Specified node is not a child of this node''), s)"
    by (rule component_assert_throws(1)[OF a])
  show "replaceChild throwing_assert this c n s =
        (Some (Error ''Specified node is not a child of this node''), s)"
    by (rule component_assert_throws(2)[OF a])
  show "removeChild Toolkit_assert this c s =
        removeChild no_assert this c
          (s\<lparr>console := console s @ [''Specified node is not a child of this node'']\<rparr>)"
    by (rule component_assert_reports(1)[OF a])
  show "replaceChild Toolkit_assert this c n s =
        replaceChild no_assert this c n
          (s\<lparr>console := console s @ [''Specified node is not a child of this node'']\<rparr>)"
    by (rule component_assert_reports(2)[OF a])
next
  assume e: "get_field children s el = Some cs \<and> c \<notin> set cs"
  then have e1: "get_field children s el = Some cs" and e2: "c \<notin> set cs" by simp_all
  show "element_removeChild d throwing_assert el c s =
        (Some (Error ''Specified node is not a child of this element''), s)"
    by (rule element_assert_throws(1)[OF e1 e2])
  show "element_replaceChild d throwing_assert el c n s =
        (Some (Error ''Specified node is not a child of this element''), s)"
    by (rule element_assert_throws(2)[OF e1 e2])
  show "element_removeChild d Toolkit_assert el c s =
        element_removeChild d no_assert el c
          (s\<lparr>console := console s @ [''Specified node is not a child of this element'']\<rparr>)"
    by (rule element_assert_reports(1)[OF e1 e2])
  show "element_replaceChild d Toolkit_assert el c n s =
        element_replaceChild d no_assert el c n
          (s\<lparr>console := console s @ [''Specified node is not a child of this element'']\<rparr>)"
    by (rule element_assert_reports(2)[OF e1 e2])
next
  assume u: "get_field children s el' = None"
  show "element_removeChild d assert el' c s = (Some TypeError, s)"
    by (rule element_without_children(1)[OF u])
  show "element_replaceChild d assert el' c n s = (Some TypeError, s)"
    by (rule element_without_children(2)[OF u])
qed

theorem failed_assertion_behaviour_witness:
  "get_field child example_store 0 \<noteq> Some 5 \<and>
   get_field children example_store 1 = Some [2, 3] \<and> 5 \<notin> set [2, 3::nat] \<and>
   get_field children example_store 2 = None \<and>
   removeChild throwing_assert 0 5 example_store =
     (Some (Error ''Specified node is not a child of this node''), example_store) \<and>
   removeChild Toolkit_assert 0 5 example_store =
     removeChild no_assert 0 5
       (example_store\<lparr>console :=
          console example_store @ [''Specified node is not a child of this node'']\<rparr>) \<and>
   element_removeChild example_dom throwing_assert 1 5 example_store =
     (Some (Error ''Specified node is not a child of this element''), example_store) \<and>
   element_removeChild example_dom Toolkit_assert 1 5 example_store =
     element_removeChild example_dom no_assert 1 5
       (example_store\<lparr>console :=
          console example_store @ [''Specified node is not a child of this element'']\<rparr>) \<and>
   element_replaceChild example_dom Toolkit_assert 2 5 3 example_store =
     (Some TypeError, example_store)"
proof -
  have h1: "get_field child example_store 0 \<noteq> Some 5" by (simp add: example_fields)
  have h2: "get_field children example_store 1 = Some [2, 3] \<and> 5 \<notin> set [2, 3::nat]"
    using example_fields(3) by simp
  have h3: "get_field children example_store 2 = None"
    by (simp add: get_field_def example_store_def)
  show ?thesis
    using failed_assertion_behaviour[of example_store 0 5 3 1 "[2, 3]" example_dom 2 Toolkit_assert]
      h1 h2 h3 by blast
qed

text \<open>
  Claim C8 as stated fails: under the default assertion function, \<open>removeChild\<close> called on
  component 0 (whose child is node 1) with node 5 returns without an exception, and it has
  removed the child.
\<close>

theorem failed_assertion_counterexample:
  "get_field child example_store 0 = Some 1 \<and>
   fst (removeChild Toolkit_assert 0 5 example_store) = None \<and>
   get_field child (snd (removeChild Toolkit_assert 0 5 example_store)) 0 = None"
  by (simp add: removeChild_def Toolkit_assert_def example_store_def op_defs get_field_def
      update_object_def)

section \<open>Verification of the apply protocol\<close>

lemma foldl_snoc_map: "foldl (\<lambda>log p. log @ [f p]) log ps = log @ map f ps"
  by (induction ps arbitrary: log) simp_all

text \<open>
  Claim C6. For a non-empty batch, the log of one \<open>Diff.apply\<close> is: the before-hook of every
  patch in batch order, then the application of every patch in batch order, then the
  after-hook of every patch in reverse batch order, and nothing else. So every before-hook
  precedes the first application and every after-hook follows the last one.
\<close>

theorem Diff_apply_order:
  assumes "patches \<noteq> []"
  shows "Diff_apply patches [] =
           map BeforePatchApplied patches @ map PatchApply patches @
           map AfterPatchApplied (rev patches)"
  using assms by (simp add: Diff_apply_def beforeUpdate_def afterUpdate_def foldl_snoc_map)

theorem Diff_apply_order_witness:
  "[1::nat, 2, 3] \<noteq> [] \<and>
   Diff_apply [1::nat, 2, 3] [] =
     [BeforePatchApplied 1, BeforePatchApplied 2, BeforePatchApplied 3,
      PatchApply 1, PatchApply 2, PatchApply 3,
      AfterPatchApplied 3, AfterPatchApplied 2, AfterPatchApplied 1]"
proof -
  have ne: "[1::nat, 2, 3] \<noteq> []" by simp
  show ?thesis using Diff_apply_order[OF ne] by simp
qed

end
